theory Spec2Isabelle
  imports Complex_Main "HOL-Library.Signed_Division"
begin

section \<open>Conventions of the embedding\<close>

text \<open>
  The development embeds the tentative-prolongator builder \<^verbatim>\<open>ContribTent\<close> of SAAMGE
  (\<^verbatim>\<open>src/amg/src/contrib.cpp\<close>) and the aggregate-only matrix provider
  \<^verbatim>\<open>ElementIPMatrix\<close> (\<^verbatim>\<open>nonconf.hpp\<close>).

  \<^item> A C++ \<^verbatim>\<open>int\<close> is an unbounded \<^typ>\<open>int\<close>: every integer of this code is a size, an
    index or a count of matrix columns, far below the 32-bit limit.
  \<^item> A \<^verbatim>\<open>double\<close> is a \<^typ>\<open>real\<close>. The routines below copy entries, compare them
    with constants, negate them and (in the deprecated insertion only) add absolute values;
    no rounding is modelled.
  \<^item> A failed \<^verbatim>\<open>SA_ASSERT\<close> aborts the run (\<open>AssertFail\<close>), \<^verbatim>\<open>throw 1\<close> is
    \<open>Thrown 1\<close>, and what C++ leaves undefined (reading an array beyond its end,
    dereferencing a null slot, a negative size) is \<open>Undefined\<close>.
  \<^item> Messages printed with \<^verbatim>\<open>SA_PRINTF\<close> and \<^verbatim>\<open>SA_ALERT_PRINTF\<close> are appended to an
    output log. Messages guarded by \<^verbatim>\<open>SA_IS_OUTPUT_LEVEL\<close> and the debugging dump of
    \<^verbatim>\<open>testmesh\<close> are diagnostics only and are left out.
\<close>

datatype error = AssertFail | Thrown int | Undefined

fun then_do :: "error + 'a \<Rightarrow> ('a \<Rightarrow> error + 'b) \<Rightarrow> error + 'b" where
  "then_do (Inl e) f = Inl e"
| "then_do (Inr x) f = f x"

text \<open>\<^verbatim>\<open>for (k = ...; ...; ++k) body\<close> over the index list \<open>ks\<close>; an abort ends the loop.\<close>

fun for_loop :: "nat list \<Rightarrow> (nat \<Rightarrow> 's \<Rightarrow> error + 's) \<Rightarrow> 's \<Rightarrow> error + 's" where
  "for_loop [] body s = Inr s"
| "for_loop (k # ks) body s = then_do (body k s) (for_loop ks body)"

text \<open>Reading \<^verbatim>\<open>xs[i]\<close> from a C array.\<close>

definition nth_chk :: "'a list \<Rightarrow> nat \<Rightarrow> error + 'a" where
  "nth_chk xs i = (if i < length xs then Inr (xs ! i) else Inl Undefined)"

text \<open>\<^verbatim>\<open>coords(i)\<close> of an \<^verbatim>\<open>mfem::Vector\<close> at an \<^verbatim>\<open>int\<close> index.\<close>

definition vec_at :: "real list \<Rightarrow> int \<Rightarrow> error + real" where
  "vec_at v i = (if 0 \<le> i \<and> i < int (length v) then Inr (v ! nat i) else Inl Undefined)"

section \<open>Data model\<close>

text \<open>
  \<^verbatim>\<open>mfem::DenseMatrix\<close> stores its entries column by column: \<^verbatim>\<open>Data() + j * Height()\<close>
  is the start of column \<open>j\<close>, which is what the loops stepping \<^verbatim>\<open>data += dim\<close> rely
  on. The model keeps the list of columns; \<^verbatim>\<open>Width()\<close> is their number.
\<close>

record DenseMatrix =
  Height :: nat
  Cols :: "real list list"

definition Width :: "DenseMatrix \<Rightarrow> nat" where
  "Width m = length (Cols m)"

text \<open>Every column of a matrix in memory has \<open>Height\<close> entries.\<close>

definition wf_mat :: "DenseMatrix \<Rightarrow> bool" where
  "wf_mat m = list_all (\<lambda>c. length c = Height m) (Cols m)"

text \<open>\<^verbatim>\<open>DenseMatrix(h, w)\<close> and \<^verbatim>\<open>SetSize(h, w)\<close> on a fresh matrix: all entries zero.\<close>

definition new_DenseMatrix :: "nat \<Rightarrow> int \<Rightarrow> error + DenseMatrix" where
  "new_DenseMatrix h w =
     (if w < 0 then Inl Undefined
      else Inr \<lparr>Height = h, Cols = replicate (nat w) (replicate h 0)\<rparr>)"

text \<open>The entry in row \<open>k\<close> of column \<open>j\<close>.\<close>

definition Elem :: "DenseMatrix \<Rightarrow> nat \<Rightarrow> nat \<Rightarrow> real" where
  "Elem m k j = Cols m ! j ! k"

text \<open>\<^verbatim>\<open>m.Elem(k, j)\<close> read and written.\<close>

definition get_Elem :: "DenseMatrix \<Rightarrow> nat \<Rightarrow> nat \<Rightarrow> error + real" where
  "get_Elem m k j =
     (if k < Height m \<and> j < Width m then Inr (Elem m k j) else Inl Undefined)"

definition put_Elem :: "nat \<Rightarrow> nat \<Rightarrow> real \<Rightarrow> DenseMatrix \<Rightarrow> DenseMatrix" where
  "put_Elem k j v m = m\<lparr>Cols := (Cols m)[j := (Cols m ! j)[k := v]]\<rparr>"

definition set_Elem :: "nat \<Rightarrow> nat \<Rightarrow> real \<Rightarrow> DenseMatrix \<Rightarrow> error + DenseMatrix" where
  "set_Elem k j v m =
     (if k < Height m \<and> j < Width m then Inr (put_Elem k j v m) else Inl Undefined)"

text \<open>
  \<^verbatim>\<open>mfem::SparseMatrix\<close>: its dimensions and the entries that were \<^verbatim>\<open>Set\<close>, by
  (row, column).
\<close>

record SparseMatrix =
  sp_Height :: int
  sp_Width :: int
  sp_entries :: "int \<times> int \<Rightarrow> real option"

definition new_SparseMatrix :: "int \<Rightarrow> SparseMatrix" where
  "new_SparseMatrix n = \<lparr>sp_Height = n, sp_Width = n, sp_entries = (\<lambda>_. None)\<rparr>"

definition sp_Set :: "int \<Rightarrow> int \<Rightarrow> real \<Rightarrow> SparseMatrix \<Rightarrow> SparseMatrix" where
  "sp_Set i j a M = M\<lparr>sp_entries := (sp_entries M)((i, j) \<mapsto> a)\<rparr>"

datatype message =
    WarnNoCoarseDofs
  | AlertEntireColumnZero
  | AlertColumnNearZero real
  | AlertSmallNormAccepted real
  | WarnZeroContribution nat nat int

text \<open>
  The fields of \<^verbatim>\<open>agg_partitioning_relations_t\<close> that the builder reads.

  Modelled from the spec: \<^verbatim>\<open>agg_is_dof_on_essential_border\<close> is declared in
  \<^verbatim>\<open>aggregates.hpp\<close>, which is not among the sources; the spec describes the
  essential-boundary flag as a per-dof boolean, here the field \<open>ess_bdr\<close>.
\<close>

record agg_partitioning_relations_t =
  num_mises :: int
  mis_master :: "int list"
  mises_size :: "int list"
  mis_to_dof :: "int list list"
  ess_bdr :: "int \<Rightarrow> bool"

definition agg_is_dof_on_essential_border :: "agg_partitioning_relations_t \<Rightarrow> int \<Rightarrow> bool" where
  "agg_is_dof_on_essential_border agg_part_rels row = ess_bdr agg_part_rels row"

text \<open>
  The members of \<^verbatim>\<open>ContribTent\<close> (\<open>threshold\<close> is \<^verbatim>\<open>threshold_\<close>, \<open>tent_interp\<close> is
  \<^verbatim>\<open>tent_interp_\<close>), and the output log.
\<close>

record ContribTent =
  rows :: int
  filled_cols :: int
  avoid_ess_bdr_dofs :: bool
  svd_eps :: real
  threshold :: real
  tent_interp :: SparseMatrix
  local_coarse_one_representation :: "real list"
  mis_tent_interps :: "DenseMatrix list"
  mis_numcoarsedof :: "int list"
  coarse_truedof_offset :: int
  out_log :: "message list"

text \<open>The constructor \<^verbatim>\<open>ContribTent(ND, avoid_ess_bdr_dofs_in)\<close>.\<close>

definition ContribTent_new :: "int \<Rightarrow> bool \<Rightarrow> ContribTent" where
  "ContribTent_new ND avoid_ess_bdr_dofs_in =
     \<lparr>rows = ND, filled_cols = 0, avoid_ess_bdr_dofs = avoid_ess_bdr_dofs_in,
      svd_eps = 1 / 10 ^ 10, threshold = 0,
      tent_interp = new_SparseMatrix ND,
      local_coarse_one_representation = [],
      mis_tent_interps = [], mis_numcoarsedof = [],
      coarse_truedof_offset = 0, out_log = []\<rparr>"

section \<open>Insertion of a local basis\<close>

text \<open>
  The inner loop of \<^verbatim>\<open>contrib_tent_insert_simple\<close> over the rows \<open>j\<close> of one column:
  the pairs are \<^verbatim>\<open>(restriction[j], data[j])\<close>.
\<close>

fun insert_simple_rows :: "real \<Rightarrow> int \<Rightarrow> (int \<times> real) list \<Rightarrow> SparseMatrix \<Rightarrow> SparseMatrix" where
  "insert_simple_rows thr col [] T = T"
| "insert_simple_rows thr col ((row, a) # rest) T =
     insert_simple_rows thr col rest (if \<bar>a\<bar> > thr then sp_Set row col a T else T)"

text \<open>The outer loop over the columns, \<^verbatim>\<open>++col\<close> after each.\<close>

fun insert_simple_cols ::
  "real \<Rightarrow> int list \<Rightarrow> real list list \<Rightarrow> int \<Rightarrow> SparseMatrix \<Rightarrow> int \<times> SparseMatrix" where
  "insert_simple_cols thr restriction [] col T = (col, T)"
| "insert_simple_cols thr restriction (c # cs) col T =
     insert_simple_cols thr restriction cs (col + 1)
       (insert_simple_rows thr col (zip restriction c) T)"

definition contrib_tent_insert_simple ::
  "ContribTent \<Rightarrow> DenseMatrix \<Rightarrow> int list \<Rightarrow> error + ContribTent" where
  "contrib_tent_insert_simple st local restriction =
     (let vects = Width local; dim = Height local in
      if \<not> vects > 0 then Inl AssertFail
      else if \<not> dim \<ge> vects then Inl AssertFail
      else if length restriction < dim then Inl Undefined
      else
        (case insert_simple_cols (threshold st) restriction (Cols local) (filled_cols st)
                (tent_interp st) of
           (col, T) \<Rightarrow> Inr (st\<lparr>tent_interp := T, filled_cols := col\<rparr>)))"

section \<open>Finalization\<close>

text \<open>
  \<^verbatim>\<open>contrib_tent_finalize\<close>: the returned matrix takes its height from
  \<^verbatim>\<open>tent_interp_->Size()\<close> and its width from \<^verbatim>\<open>filled_cols\<close>. The arrays handed
  over by \<^verbatim>\<open>Finalize()\<close> are allocated, so the assertion on the three pointers holds.
\<close>

definition contrib_tent_finalize :: "ContribTent \<Rightarrow> error + SparseMatrix \<times> ContribTent" where
  "contrib_tent_finalize st =
     (if \<not> filled_cols st \<ge> 0 then Inl AssertFail
      else
        let st1 = (if filled_cols st = 0
                   then st\<lparr>out_log := out_log st @ [WarnNoCoarseDofs]\<rparr> else st);
            tent_interp_l = \<lparr>sp_Height = sp_Height (tent_interp st1),
                             sp_Width = filled_cols st1,
                             sp_entries = sp_entries (tent_interp st1)\<rparr>
        in if sp_Height tent_interp_l \<noteq> rows st1 then Inl AssertFail
           else if sp_Width tent_interp_l \<noteq> filled_cols st1 then Inl AssertFail
           else Inr (tent_interp_l, st1))"

section \<open>Boundary filter\<close>

text \<open>
  The inner loop of \<^verbatim>\<open>contrib_filter_boundary\<close> over the rows of one column: the new
  column and the flag \<^verbatim>\<open>atleastone\<close>.
\<close>

fun filter_boundary_rows ::
  "bool \<Rightarrow> agg_partitioning_relations_t \<Rightarrow> (int \<times> real) list \<Rightarrow> real list \<times> bool" where
  "filter_boundary_rows avoid agg_part_rels [] = ([], False)"
| "filter_boundary_rows avoid agg_part_rels ((row, a) # rest) =
     (case filter_boundary_rows avoid agg_part_rels rest of
        (newcolumn, atleastone) \<Rightarrow>
          if a = 0 \<or> (avoid \<and> agg_is_dof_on_essential_border agg_part_rels row)
          then (0 # newcolumn, atleastone)
          else (a # newcolumn, True))"

text \<open>The outer loop: the columns kept, in \<^verbatim>\<open>newdata\<close>, and the alerts printed.\<close>

fun filter_boundary_cols ::
  "bool \<Rightarrow> agg_partitioning_relations_t \<Rightarrow> int list \<Rightarrow> real list list \<Rightarrow>
   real list list \<times> message list" where
  "filter_boundary_cols avoid agg_part_rels restriction [] = ([], [])"
| "filter_boundary_cols avoid agg_part_rels restriction (c # cs) =
     (case filter_boundary_rows avoid agg_part_rels (zip restriction c) of
        (newcolumn, atleastone) \<Rightarrow>
          (case filter_boundary_cols avoid agg_part_rels restriction cs of
             (newdata, msgs) \<Rightarrow>
               if atleastone then (newcolumn # newdata, msgs)
               else (newdata, AlertEntireColumnZero # msgs)))"

definition contrib_filter_boundary ::
  "ContribTent \<Rightarrow> agg_partitioning_relations_t \<Rightarrow> DenseMatrix \<Rightarrow> int list \<Rightarrow>
   error + DenseMatrix \<times> ContribTent" where
  "contrib_filter_boundary st agg_part_rels local restriction =
     (let vects = Width local; dim = Height local in
      if \<not> vects > 0 then Inl AssertFail
      else if length restriction < dim then Inl Undefined
      else
        (case filter_boundary_cols (avoid_ess_bdr_dofs st) agg_part_rels restriction
                (Cols local) of
           (newdata, msgs) \<Rightarrow>
             Inr (\<lparr>Height = dim, Cols = newdata\<rparr>, st\<lparr>out_log := out_log st @ msgs\<rparr>)))"

section \<open>The deprecated combined filter and insertion\<close>

text \<open>
  The inner loop of \<^verbatim>\<open>contrib_tent_insert_from_local\<close>: the new column,
  \<^verbatim>\<open>nonzerodofs\<close>, \<^verbatim>\<open>adhoc_column_norm\<close> and whether an entry was zeroed.
\<close>

fun from_local_rows ::
  "bool \<Rightarrow> agg_partitioning_relations_t \<Rightarrow> (int \<times> real) list \<Rightarrow>
   real list \<times> int \<times> real \<times> bool" where
  "from_local_rows avoid agg_part_rels [] = ([], 0, 0, False)"
| "from_local_rows avoid agg_part_rels ((row, a) # rest) =
     (case from_local_rows avoid agg_part_rels rest of
        (newcolumn, nonzerodofs, adhoc_column_norm, zeroed) \<Rightarrow>
          if a = 0 \<or> (avoid \<and> agg_is_dof_on_essential_border agg_part_rels row)
          then (0 # newcolumn, nonzerodofs, adhoc_column_norm, True)
          else (a # newcolumn, nonzerodofs + 1, \<bar>a\<bar> + adhoc_column_norm, zeroed))"



text \<open>An accepted column is stored whole: \<^verbatim>\<open>Set(row, col, newcolumn[j])\<close> for every row.\<close>

fun from_local_set :: "int \<Rightarrow> (int \<times> real) list \<Rightarrow> SparseMatrix \<Rightarrow> SparseMatrix" where
  "from_local_set col [] T = T"
| "from_local_set col ((row, a) # rest) T = from_local_set col rest (sp_Set row col a T)"

text \<open>
  The outer loop, on the tuple of \<^verbatim>\<open>col\<close>, the columns written to \<^verbatim>\<open>newdata\<close>,
  \<^verbatim>\<open>tent_interp_\<close>, \<^verbatim>\<open>modified\<close>, \<^verbatim>\<open>bestcase_nonzerodofs\<close> and the alerts printed.
\<close>

fun from_local_cols ::
  "bool \<Rightarrow> agg_partitioning_relations_t \<Rightarrow> int list \<Rightarrow> real list list \<Rightarrow>
   int \<times> real list list \<times> SparseMatrix \<times> bool \<times> int \<times> message list \<Rightarrow>
   int \<times> real list list \<times> SparseMatrix \<times> bool \<times> int \<times> message list" where
  "from_local_cols avoid agg_part_rels restriction [] s = s"
| "from_local_cols avoid agg_part_rels restriction (c # cs)
       (col, newdata, T, modified, bestcase_nonzerodofs, msgs) =
     (case from_local_rows avoid agg_part_rels (zip restriction c) of
        (newcolumn, nonzerodofs, adhoc_column_norm, zeroed) \<Rightarrow>
          let modified1 = (modified \<or> zeroed);
              bestcase1 = (if nonzerodofs > bestcase_nonzerodofs then nonzerodofs
                           else bestcase_nonzerodofs)
          in if adhoc_column_norm < 1 / 1000
             then from_local_cols avoid agg_part_rels restriction cs
                    (col, newdata, T, True, bestcase1,
                     msgs @ [AlertColumnNearZero adhoc_column_norm])
             else from_local_cols avoid agg_part_rels restriction cs
                    (col + 1, newdata @ [newcolumn],
                     from_local_set col (zip restriction newcolumn) T, modified1, bestcase1,
                     msgs @ (if adhoc_column_norm < 1 / 10
                             then [AlertSmallNormAccepted adhoc_column_norm] else [])))"

definition contrib_tent_insert_from_local ::
  "ContribTent \<Rightarrow> agg_partitioning_relations_t \<Rightarrow> DenseMatrix \<Rightarrow> int list \<Rightarrow>
   error + DenseMatrix \<times> ContribTent" where
  "contrib_tent_insert_from_local st agg_part_rels local restriction =
     (let vects = Width local; dim = Height local in
      if \<not> vects > 0 then Inl AssertFail
      else if \<not> dim \<ge> vects then Inl AssertFail
      else if length restriction < dim then Inl Undefined
      else
        (let firstcol = filled_cols st in
         case from_local_cols (avoid_ess_bdr_dofs st) agg_part_rels restriction (Cols local)
                (filled_cols st, [], tent_interp st, False, 0, []) of
           (col, newdata, T, modified, bestcase_nonzerodofs, msgs) \<Rightarrow>
             if \<not> bestcase_nonzerodofs \<ge> col - firstcol then Inl AssertFail
             else Inr (if modified then \<lparr>Height = dim, Cols = newdata\<rparr> else local,
                       st\<lparr>tent_interp := T, filled_cols := col,
                          out_log := out_log st @ msgs\<rparr>)))"

section \<open>Extension of the contributions by polynomials and rigid body modes\<close>

text \<open>
  \<^verbatim>\<open>received_mats\<close> is an array with one slot per MIS: a null pointer or an array of
  matrices, of which the extensions touch the first. \<^verbatim>\<open>PROC_RANK\<close> is passed as
  \<open>rank\<close>.
\<close>

type_synonym received_mats_t = "DenseMatrix list option list"

text \<open>
  The slot of an owned MIS, allocated as a \<^verbatim>\<open>mis_size\<close> by 0 matrix when it is null
  (``the next bit is a real hack'').
\<close>

definition slot_or_new :: "DenseMatrix list option \<Rightarrow> int \<Rightarrow> error + DenseMatrix list" where
  "slot_or_new slot mis_size =
     (case slot of
        None \<Rightarrow> if mis_size < 0 then Inl Undefined
                else Inr [\<lparr>Height = nat mis_size, Cols = []\<rparr>]
      | Some ms \<Rightarrow> Inr ms)"

text \<open>\<^verbatim>\<open>for (j = 0; j < local_spectral.Width(); ++j) extended.Elem(k,j) = local_spectral.Elem(k,j)\<close>\<close>

definition copy_row :: "DenseMatrix \<Rightarrow> nat \<Rightarrow> DenseMatrix \<Rightarrow> error + DenseMatrix" where
  "copy_row local_spectral k extended =
     for_loop [0..<Width local_spectral]
       (\<lambda>j e. then_do (get_Elem local_spectral k j) (\<lambda>v. set_Elem k j v e)) extended"

text \<open>The body of the loop over the rows \<open>k\<close> in \<^verbatim>\<open>ExtendWithPolynomials\<close>.\<close>

definition poly_row ::
  "DenseMatrix \<Rightarrow> int \<Rightarrow> int \<Rightarrow> int \<Rightarrow> real list \<Rightarrow> int list \<Rightarrow> nat \<Rightarrow>
   DenseMatrix \<Rightarrow> error + DenseMatrix" where
  "poly_row local_spectral order spatial_dimension num_nodes coords row k extended =
     (let swidth = Width local_spectral in
      then_do (copy_row local_spectral k extended) (\<lambda>e1.
      then_do (set_Elem k swidth 1 e1) (\<lambda>e2.
      if order = 1 then
        for_loop [0..<nat spatial_dimension]
          (\<lambda>d e. then_do (nth_chk row k) (\<lambda>dof_num.
                  then_do (vec_at coords (num_nodes * int d + dof_num)) (\<lambda>x.
                  set_Elem k (swidth + d + 1) x e))) e2
      else Inr e2)))"

text \<open>The body of the loop over the MISes in \<^verbatim>\<open>ExtendWithPolynomials\<close>.\<close>

definition poly_mis ::
  "int \<Rightarrow> agg_partitioning_relations_t \<Rightarrow> int \<Rightarrow> int \<Rightarrow> int \<Rightarrow> real list \<Rightarrow> nat \<Rightarrow>
   received_mats_t \<Rightarrow> error + received_mats_t" where
  "poly_mis rank agg_part_rels order spatial_dimension num_nodes coords mis received_mats =
     then_do (nth_chk (mis_master agg_part_rels) mis) (\<lambda>owner.
     if owner = rank then
       then_do (nth_chk (mises_size agg_part_rels) mis) (\<lambda>mis_size.
       then_do (nth_chk received_mats mis) (\<lambda>slot.
       then_do (slot_or_new slot mis_size) (\<lambda>ms.
       case ms of
         [] \<Rightarrow> Inl Undefined
       | local_spectral # others \<Rightarrow>
           if int (Height local_spectral) \<noteq> mis_size then Inl AssertFail
           else
             let swidth = Width local_spectral in
             then_do (if order = 0 then Inr (int swidth + 1)
                      else if order = 1 then Inr (int swidth + spatial_dimension + 1)
                      else Inl (Thrown 1)) (\<lambda>newwidth.
             then_do (new_DenseMatrix (Height local_spectral) newwidth) (\<lambda>extended0.
             then_do (nth_chk (mis_to_dof agg_part_rels) mis) (\<lambda>row.
             then_do (for_loop [0..<nat mis_size]
                        (poly_row local_spectral order spatial_dimension num_nodes coords row)
                        extended0) (\<lambda>extended.
             Inr (received_mats[mis := Some (extended # others)]))))))))
     else Inr received_mats)"

definition ExtendWithPolynomials ::
  "int \<Rightarrow> received_mats_t \<Rightarrow> agg_partitioning_relations_t \<Rightarrow> int \<Rightarrow> int \<Rightarrow> int \<Rightarrow>
   real list \<Rightarrow> error + received_mats_t" where
  "ExtendWithPolynomials rank received_mats agg_part_rels order spatial_dimension num_nodes
       coords =
     for_loop [0..<nat (num_mises agg_part_rels)]
       (poly_mis rank agg_part_rels order spatial_dimension num_nodes coords) received_mats"

definition ExtendWithConstants ::
  "int \<Rightarrow> received_mats_t \<Rightarrow> agg_partitioning_relations_t \<Rightarrow> error + received_mats_t" where
  "ExtendWithConstants rank received_mats agg_part_rels =
     ExtendWithPolynomials rank received_mats agg_part_rels 0 (- 1) (- 1) []"

text \<open>
  The body of the loop over the nodes in \<^verbatim>\<open>ExtendWithRBMs\<close>. The integer division of
  C++ truncates: \<open>sdiv\<close>. (Where \<^verbatim>\<open>mis_size\<close> is divided below, it is a matrix
  height and the divisor is 1, 2 or 3, so \<open>div\<close> and \<open>mod\<close> agree with C++.)
\<close>

definition rbm_node ::
  "int \<Rightarrow> int \<Rightarrow> real list \<Rightarrow> int list \<Rightarrow> nat \<Rightarrow> nat \<Rightarrow> DenseMatrix \<Rightarrow>
   error + DenseMatrix" where
  "rbm_node spatial_dimension num_nodes coords row swidth node extended =
     (let sd = nat spatial_dimension in
      then_do (nth_chk row (node * sd)) (\<lambda>r0.
      let node_num = r0 sdiv spatial_dimension in
      if \<not> node_num < num_nodes then Inl AssertFail
      else
        then_do (for_loop [0..<sd] (\<lambda>d. set_Elem (node * sd + d) (swidth + d) 1) extended)
          (\<lambda>e1.
        then_do
          (if spatial_dimension > 1 then
             then_do (vec_at coords (num_nodes * 0 + node_num)) (\<lambda>xcoord.
             then_do (vec_at coords (num_nodes * 1 + node_num)) (\<lambda>ycoord.
             then_do (set_Elem (node * sd + 0) (swidth + sd + 0) ycoord e1) (\<lambda>e.
             set_Elem (node * sd + 1) (swidth + sd + 0) (- xcoord) e)))
           else Inr e1) (\<lambda>e2.
        if spatial_dimension > 2 then
          then_do (vec_at coords (num_nodes * 0 + node_num)) (\<lambda>xcoord.
          then_do (vec_at coords (num_nodes * 1 + node_num)) (\<lambda>ycoord.
          then_do (vec_at coords (num_nodes * 2 + node_num)) (\<lambda>zcoord.
          then_do (set_Elem (node * sd + 0) (swidth + sd + 1) 0 e2) (\<lambda>e3.
          then_do (set_Elem (node * sd + 0) (swidth + sd + 2) (- zcoord) e3) (\<lambda>e4.
          then_do (set_Elem (node * sd + 1) (swidth + sd + 1) zcoord e4) (\<lambda>e5.
          then_do (set_Elem (node * sd + 1) (swidth + sd + 2) 0 e5) (\<lambda>e6.
          then_do (set_Elem (node * sd + 2) (swidth + sd + 1) (- ycoord) e6) (\<lambda>e7.
          set_Elem (node * sd + 2) (swidth + sd + 2) xcoord e7))))))))
        else Inr e2))))"

text \<open>The body of the loop over the MISes in \<^verbatim>\<open>ExtendWithRBMs\<close>.\<close>

definition rbm_mis ::
  "int \<Rightarrow> agg_partitioning_relations_t \<Rightarrow> int \<Rightarrow> int \<Rightarrow> real list \<Rightarrow> nat \<Rightarrow>
   received_mats_t \<Rightarrow> error + received_mats_t" where
  "rbm_mis rank agg_part_rels spatial_dimension num_nodes coords mis received_mats =
     then_do (nth_chk (mis_master agg_part_rels) mis) (\<lambda>owner.
     if owner = rank then
       then_do (nth_chk (mises_size agg_part_rels) mis) (\<lambda>mis_size.
       then_do (nth_chk received_mats mis) (\<lambda>slot.
       then_do (slot_or_new slot mis_size) (\<lambda>ms.
       case ms of
         [] \<Rightarrow> Inl Undefined
       | local_spectral # others \<Rightarrow>
           if int (Height local_spectral) \<noteq> mis_size then Inl AssertFail
           else
             let swidth = Width local_spectral in
             then_do (if spatial_dimension = 1 then Inr (int swidth + 1)
                      else if spatial_dimension = 2 then Inr (int swidth + 3)
                      else if spatial_dimension = 3 then Inr (int swidth + 6)
                      else Inl (Thrown 1)) (\<lambda>newwidth.
             then_do (new_DenseMatrix (Height local_spectral) newwidth) (\<lambda>extended0.
             then_do (for_loop [0..<nat mis_size] (copy_row local_spectral) extended0)
               (\<lambda>extended1.
             then_do (nth_chk (mis_to_dof agg_part_rels) mis) (\<lambda>row.
             if mis_size mod spatial_dimension \<noteq> 0 then Inl AssertFail
             else
               let nodes_in_mis = mis_size div spatial_dimension in
               then_do (for_loop [0..<nat nodes_in_mis]
                          (rbm_node spatial_dimension num_nodes coords row swidth)
                          extended1) (\<lambda>extended.
               Inr (received_mats[mis := Some (extended # others)])))))))))
     else Inr received_mats)"

definition ExtendWithRBMs ::
  "int \<Rightarrow> received_mats_t \<Rightarrow> agg_partitioning_relations_t \<Rightarrow> int \<Rightarrow> int \<Rightarrow> real list \<Rightarrow>
   error + received_mats_t" where
  "ExtendWithRBMs rank received_mats agg_part_rels spatial_dimension num_nodes coords =
     for_loop [0..<nat (num_mises agg_part_rels)]
       (rbm_mis rank agg_part_rels spatial_dimension num_nodes coords) received_mats"

section \<open>SVD and insertion\<close>

text \<open>
  The dense kernels of \<^verbatim>\<open>xpacks.hpp\<close> (LAPACK wrappers, not among the sources) are
  parameters: \<^verbatim>\<open>xpack_svd_dense_arr\<close> gives the left singular vectors and the singular
  values of the matrices set side by side, \<^verbatim>\<open>xpack_orth_set\<close> the retained orthonormal
  set, \<^verbatim>\<open>xpack_solve_lls\<close> a least squares solution.
\<close>

record xpack =
  xpack_svd_dense_arr :: "DenseMatrix list \<Rightarrow> DenseMatrix \<times> real list"
  xpack_orth_set :: "DenseMatrix \<Rightarrow> real list \<Rightarrow> real \<Rightarrow> DenseMatrix"
  xpack_solve_lls :: "DenseMatrix \<Rightarrow> real list \<Rightarrow> real list"

text \<open>
  The state of the loop over the MISes in \<^verbatim>\<open>SVDInsert\<close>: the builder (the arrays
  \<^verbatim>\<open>mis_tent_interps\<close> and \<^verbatim>\<open>mis_numcoarsedof\<close> receive their entry for MIS number
  \<open>mis\<close> in the iteration \<open>mis\<close>, so they grow by one entry per iteration) and
  \<^verbatim>\<open>num_coarse_dofs\<close>.
\<close>

type_synonym svd_loop_state = "ContribTent \<times> int"

text \<open>The search for a dof off the essential boundary, leaving the loop at the first.\<close>

fun interior_dofs_loop ::
  "int \<Rightarrow> agg_partitioning_relations_t \<Rightarrow> int list \<Rightarrow> nat list \<Rightarrow> error + bool" where
  "interior_dofs_loop rows_l agg_part_rels dofs [] = Inr False"
| "interior_dofs_loop rows_l agg_part_rels dofs (j # js) =
     then_do (nth_chk dofs j) (\<lambda>row.
     if \<not> rows_l > row then Inl AssertFail
     else if \<not> agg_is_dof_on_essential_border agg_part_rels row then Inr True
     else interior_dofs_loop rows_l agg_part_rels dofs js)"

text \<open>A MIS that receives no coarse dof: count 0 and a \<open>dim\<close> by 0 local basis.\<close>

definition no_coarse_dofs :: "nat \<Rightarrow> ContribTent \<Rightarrow> ContribTent" where
  "no_coarse_dofs dim_l st =
     st\<lparr>mis_numcoarsedof := mis_numcoarsedof st @ [0],
        mis_tent_interps := mis_tent_interps st @ [\<lparr>Height = dim_l, Cols = []\<rparr>]\<rparr>"

text \<open>
  The loop \<^verbatim>\<open>for (q = 0; q < row_size; ++q)\<close> filtering the received matrices in place
  and adding up their widths.
\<close>

definition filter_received ::
  "agg_partitioning_relations_t \<Rightarrow> int list \<Rightarrow> nat \<Rightarrow>
   DenseMatrix list \<times> ContribTent \<times> nat \<Rightarrow> error + DenseMatrix list \<times> ContribTent \<times> nat" where
  "filter_received agg_part_rels dofs q s =
     (case s of (mats, st, total_num_columns) \<Rightarrow>
        then_do (nth_chk mats q) (\<lambda>m.
        then_do (contrib_filter_boundary st agg_part_rels m dofs) (\<lambda>r.
        case r of (m', st') \<Rightarrow> Inr (mats[q := m'], st', total_num_columns + Width m'))))"

text \<open>
  The end of an iteration, from \<^verbatim>\<open>int filled_cols_l = filled_cols\<close> on: insertion of the
  local basis, the assertion on the advance of \<^verbatim>\<open>filled_cols\<close>, the optional scaling
  and the counts.
\<close>

definition SVDInsert_insert ::
  "xpack \<Rightarrow> bool \<Rightarrow> int list \<Rightarrow> DenseMatrix \<Rightarrow> svd_loop_state \<Rightarrow> error + svd_loop_state" where
  "SVDInsert_insert K scaling_P dofs basis s =
     (case s of (st, num_coarse_dofs) \<Rightarrow>
        let filled_cols_l0 = filled_cols st in
        then_do (contrib_tent_insert_simple st basis dofs) (\<lambda>st1.
        let filled_cols_l = filled_cols st1 - filled_cols_l0 in
        if filled_cols_l \<noteq> int (Width basis) then Inl AssertFail
        else
          let st2 =
            (if scaling_P \<and> filled_cols_l > 0 then
               let x = xpack_solve_lls K basis (replicate (Height basis) 1);
                   norm = sqrt (sum_list (map (\<lambda>xk. xk * xk) x))
               in st1\<lparr>local_coarse_one_representation :=
                        local_coarse_one_representation st1 @ map (\<lambda>xk. xk / norm) x\<rparr>
             else st1)
          in Inr (st2\<lparr>mis_numcoarsedof := mis_numcoarsedof st2 @ [filled_cols_l],
                     mis_tent_interps := mis_tent_interps st2 @ [basis]\<rparr>,
                  num_coarse_dofs + filled_cols_l)))"

text \<open>
  The branch for \<open>dim \<noteq> 1\<close>: boundary filter of the received matrices, SVD unless no
  column is left, no coarse dof when no singular value is left, insertion otherwise.
  (\<^verbatim>\<open>lsvects\<close> is read only after \<^verbatim>\<open>xpack_svd_dense_arr\<close> has set it.)
\<close>

definition SVDInsert_svd ::
  "xpack \<Rightarrow> agg_partitioning_relations_t \<Rightarrow> bool \<Rightarrow> nat \<Rightarrow> nat \<Rightarrow> int \<Rightarrow> int list \<Rightarrow>
   DenseMatrix list \<Rightarrow> svd_loop_state \<Rightarrow> error + svd_loop_state" where
  "SVDInsert_svd K agg_part_rels scaling_P mis dim_l row_size dofs received s =
     (case s of (st, num_coarse_dofs) \<Rightarrow>
        then_do (for_loop [0..<nat row_size] (filter_received agg_part_rels dofs)
                   (received, st, 0)) (\<lambda>r.
        case r of (mats, st1, total_num_columns) \<Rightarrow>
          (case (if total_num_columns = 0 then (\<lparr>Height = 0, Cols = []\<rparr>, [])
                 else xpack_svd_dense_arr K (take (nat row_size) mats)) of
             (lsvects, svals) \<Rightarrow>
               if length svals = 0 then
                 Inr (no_coarse_dofs dim_l
                        (st1\<lparr>out_log := out_log st1 @
                                [WarnZeroContribution mis dim_l row_size]\<rparr>),
                      num_coarse_dofs)
               else
                 SVDInsert_insert K scaling_P dofs
                   (xpack_orth_set K lsvects svals (svd_eps st1))
                   (st1, num_coarse_dofs))))"

text \<open>
  An iteration for a MIS owned by this rank, from \<^verbatim>\<open>const int dim = ...\<close> on: the
  assertion on the height, the essential boundary check, then the local basis.
\<close>

definition SVDInsert_owned ::
  "xpack \<Rightarrow> agg_partitioning_relations_t \<Rightarrow> bool \<Rightarrow> nat \<Rightarrow> int \<Rightarrow> int \<Rightarrow>
   DenseMatrix list \<Rightarrow> svd_loop_state \<Rightarrow> error + svd_loop_state" where
  "SVDInsert_owned K agg_part_rels scaling_P mis row_size mis_size received s =
     (case s of (st, num_coarse_dofs) \<Rightarrow>
        then_do (nth_chk received 0) (\<lambda>m0.
        let dim = Height m0 in
        if mis_size \<noteq> int dim then Inl AssertFail
        else
          then_do (nth_chk (mis_to_dof agg_part_rels) mis) (\<lambda>dofs.
          then_do (if avoid_ess_bdr_dofs st
                   then interior_dofs_loop (rows st) agg_part_rels dofs [0..<dim]
                   else Inr True) (\<lambda>interior_dofs.
          if \<not> interior_dofs then Inr (no_coarse_dofs dim st, num_coarse_dofs)
          else if dim = 1 then
            SVDInsert_insert K scaling_P dofs \<lparr>Height = 1, Cols = [[1]]\<rparr>
              (st, num_coarse_dofs)
          else
            SVDInsert_svd K agg_part_rels scaling_P mis dim row_size dofs received
              (st, num_coarse_dofs)))))"

text \<open>The body of the loop over the MISes in \<^verbatim>\<open>SVDInsert\<close>.\<close>

definition SVDInsert_mis ::
  "xpack \<Rightarrow> int \<Rightarrow> agg_partitioning_relations_t \<Rightarrow> received_mats_t \<Rightarrow> int list \<Rightarrow> bool \<Rightarrow>
   nat \<Rightarrow> svd_loop_state \<Rightarrow> error + svd_loop_state" where
  "SVDInsert_mis K rank agg_part_rels received_mats row_sizes scaling_P mis s =
     (case s of (st, num_coarse_dofs) \<Rightarrow>
        then_do (nth_chk (mis_master agg_part_rels) mis) (\<lambda>owner.
        if owner = rank then
          then_do (nth_chk row_sizes mis) (\<lambda>row_size.
          then_do (nth_chk (mises_size agg_part_rels) mis) (\<lambda>mis_size.
          then_do (nth_chk received_mats mis) (\<lambda>slot.
          case slot of
            None \<Rightarrow> Inl Undefined
          | Some received \<Rightarrow>
              SVDInsert_owned K agg_part_rels scaling_P mis row_size mis_size received
                (st, num_coarse_dofs))))
        else
          Inr (st\<lparr>mis_numcoarsedof := mis_numcoarsedof st @ [0],
                  mis_tent_interps := mis_tent_interps st @ [\<lparr>Height = 0, Cols = []\<rparr>]\<rparr>,
               num_coarse_dofs)))"

text \<open>
  \<^verbatim>\<open>SVDInsert\<close> on one rank up to the collective call: the builder and
  \<^verbatim>\<open>num_coarse_dofs\<close>.
\<close>

definition SVDInsert_local ::
  "xpack \<Rightarrow> int \<Rightarrow> ContribTent \<Rightarrow> agg_partitioning_relations_t \<Rightarrow> received_mats_t \<Rightarrow>
   int list \<Rightarrow> bool \<Rightarrow> error + svd_loop_state" where
  "SVDInsert_local K rank st agg_part_rels received_mats row_sizes scaling_P =
     for_loop [0..<nat (num_mises agg_part_rels)]
       (SVDInsert_mis K rank agg_part_rels received_mats row_sizes scaling_P)
       (st\<lparr>mis_tent_interps := [], mis_numcoarsedof := []\<rparr>, 0)"

text \<open>
  \<^verbatim>\<open>MPI_Scan\<close> with \<^verbatim>\<open>MPI_SUM\<close> (MPI standard, inclusive scan): the process of rank
  \<open>r\<close> receives the sum of the values sent by the ranks \<open>0, \<dots>, r\<close>.
\<close>

definition MPI_Scan_SUM :: "int list \<Rightarrow> nat \<Rightarrow> int" where
  "MPI_Scan_SUM sendbufs r = sum_list (take (Suc r) sendbufs)"

text \<open>The last three statements of \<^verbatim>\<open>SVDInsert\<close>, given what the scan delivered.\<close>

definition SVDInsert_offset :: "int \<Rightarrow> svd_loop_state \<Rightarrow> ContribTent" where
  "SVDInsert_offset scanned s =
     (case s of (st, num_coarse_dofs) \<Rightarrow>
        let st0 = st\<lparr>coarse_truedof_offset := 0\<rparr>;
            st1 = st0\<lparr>coarse_truedof_offset := scanned\<rparr>
        in st1\<lparr>coarse_truedof_offset := coarse_truedof_offset st1 - num_coarse_dofs\<rparr>)"

text \<open>The first abort among the ranks ends the job.\<close>

fun all_ranks :: "(error + 'a) list \<Rightarrow> error + 'a list" where
  "all_ranks [] = Inr []"
| "all_ranks (r # rs) = then_do r (\<lambda>x. then_do (all_ranks rs) (\<lambda>xs. Inr (x # xs)))"

text \<open>
  One input per rank, the rank being the position in the list: builder, partitioning
  relations, received matrices and \<^verbatim>\<open>row_sizes\<close>.
\<close>

type_synonym rank_input =
  "ContribTent \<times> agg_partitioning_relations_t \<times> received_mats_t \<times> int list"

definition SVDInsert_rank ::
  "xpack \<Rightarrow> bool \<Rightarrow> nat \<times> rank_input \<Rightarrow> error + svd_loop_state" where
  "SVDInsert_rank K scaling_P ri =
     (case ri of (r, st, agg_part_rels, received_mats, row_sizes) \<Rightarrow>
        SVDInsert_local K (int r) st agg_part_rels received_mats row_sizes scaling_P)"

definition SVDInsert ::
  "xpack \<Rightarrow> bool \<Rightarrow> rank_input list \<Rightarrow> error + ContribTent list" where
  "SVDInsert K scaling_P inputs =
     then_do (all_ranks (map (SVDInsert_rank K scaling_P) (enumerate 0 inputs))) (\<lambda>locals.
     Inr (map (\<lambda>(r, s). SVDInsert_offset (MPI_Scan_SUM (map snd locals) r) s)
            (enumerate 0 locals)))"

section \<open>The aggregate-only matrix provider\<close>

text \<open>
  \<^verbatim>\<open>ElementIPMatrix\<close> holds a reference to the interpolation data; the type of the data
  and \<^verbatim>\<open>nonconf_AE_matrix\<close> (defined in \<^verbatim>\<open>nonconf.cpp\<close>, not among the sources) are
  parameters.
\<close>

record 'd ElementIPMatrix =
  is_geometric :: bool
  interp_data_nonconf :: 'd

definition ElementIPMatrix_new :: "'d \<Rightarrow> 'd ElementIPMatrix" where
  "ElementIPMatrix_new interp_data = \<lparr>is_geometric = False, interp_data_nonconf = interp_data\<rparr>"

text \<open>\<^verbatim>\<open>GetMatrix\<close> returns the matrix and \<^verbatim>\<open>free_matr\<close>, after \<^verbatim>\<open>SA_ASSERT(false)\<close>.\<close>

definition GetMatrix :: "'d ElementIPMatrix \<Rightarrow> int \<Rightarrow> error + DenseMatrix \<times> bool" where
  "GetMatrix p elno =
     (if \<not> False then Inl AssertFail else Inr (\<lparr>Height = 0, Cols = []\<rparr>, True))"

definition BuildAEStiff ::
  "('d \<Rightarrow> int \<Rightarrow> error + 'm) \<Rightarrow> 'd ElementIPMatrix \<Rightarrow> int \<Rightarrow> error + 'm" where
  "BuildAEStiff nonconf_AE_matrix p elno = nonconf_AE_matrix (interp_data_nonconf p) elno"

section \<open>Sequences of insertions\<close>

text \<open>
  What fills the builder between its construction and \<^verbatim>\<open>contrib_tent_finalize\<close>: calls of
  the simple insertion, of the deprecated combined insertion and of \<^verbatim>\<open>SVDInsert\<close> (with
  the value delivered by the scan).
\<close>

datatype insertion =
    InsertSimple DenseMatrix "int list"
  | InsertFromLocal agg_partitioning_relations_t DenseMatrix "int list"
  | InsertSVD xpack int agg_partitioning_relations_t received_mats_t "int list" bool int

fun apply_insertion :: "insertion \<Rightarrow> ContribTent \<Rightarrow> error + ContribTent" where
  "apply_insertion (InsertSimple local restriction) st =
     contrib_tent_insert_simple st local restriction"
| "apply_insertion (InsertFromLocal agg_part_rels local restriction) st =
     then_do (contrib_tent_insert_from_local st agg_part_rels local restriction)
       (\<lambda>r. Inr (snd r))"
| "apply_insertion (InsertSVD K rank agg_part_rels received_mats row_sizes scaling_P scanned) st =
     then_do (SVDInsert_local K rank st agg_part_rels received_mats row_sizes scaling_P)
       (\<lambda>s. Inr (SVDInsert_offset scanned s))"

fun apply_insertions :: "insertion list \<Rightarrow> ContribTent \<Rightarrow> error + ContribTent" where
  "apply_insertions [] st = Inr st"
| "apply_insertions (i # is) st = then_do (apply_insertion i st) (apply_insertions is)"

text \<open>
  What the constructor establishes and every insertion keeps: the sparse matrix under
  construction has \<open>rows\<close> rows, and the column counter is not negative.
\<close>

definition tent_inv :: "int \<Rightarrow> ContribTent \<Rightarrow> bool" where
  "tent_inv ND st \<longleftrightarrow>
     rows st = ND \<and> sp_Height (tent_interp st) = ND \<and> 0 \<le> filled_cols st"

section \<open>Vocabulary of the statements on the extensions\<close>

text \<open>A matrix of height \<open>h\<close> and width \<open>w\<close>, every column complete.\<close>

definition sized :: "nat \<Rightarrow> nat \<Rightarrow> DenseMatrix \<Rightarrow> bool" where
  "sized h w m \<longleftrightarrow> Height m = h \<and> Width m = w \<and> wf_mat m"

text \<open>MIS number \<open>mis\<close> is visited by the loops and owned by the calling rank.\<close>

definition owned :: "int \<Rightarrow> agg_partitioning_relations_t \<Rightarrow> nat \<Rightarrow> bool" where
  "owned rank agg_part_rels mis \<longleftrightarrow>
     mis < nat (num_mises agg_part_rels) \<and> mis_master agg_part_rels ! mis = rank"

text \<open>
  The contribution matrix of a MIS as the extensions see it: the first matrix of the slot,
  or the empty matrix of \<^verbatim>\<open>mis_size\<close> rows for a null slot; and the matrices after it.
\<close>

definition spectral :: "agg_partitioning_relations_t \<Rightarrow> received_mats_t \<Rightarrow> nat \<Rightarrow> DenseMatrix" where
  "spectral agg_part_rels received_mats mis =
     (case received_mats ! mis of
        None \<Rightarrow> \<lparr>Height = nat (mises_size agg_part_rels ! mis), Cols = []\<rparr>
      | Some ms \<Rightarrow> hd ms)"

definition others :: "received_mats_t \<Rightarrow> nat \<Rightarrow> DenseMatrix list" where
  "others received_mats mis = (case received_mats ! mis of None \<Rightarrow> [] | Some ms \<Rightarrow> tl ms)"

text \<open>
  The arrays of the partitioning relations and \<^verbatim>\<open>received_mats\<close> have an entry for every
  MIS, and the slot of every owned MIS is null or starts with a matrix of \<^verbatim>\<open>mis_size\<close>
  complete rows, one per dof listed for the MIS.
\<close>

definition slots_ok :: "int \<Rightarrow> agg_partitioning_relations_t \<Rightarrow> received_mats_t \<Rightarrow> bool" where
  "slots_ok rank agg_part_rels received_mats \<longleftrightarrow>
     nat (num_mises agg_part_rels) \<le> length (mis_master agg_part_rels) \<and>
     nat (num_mises agg_part_rels) \<le> length (mises_size agg_part_rels) \<and>
     nat (num_mises agg_part_rels) \<le> length (mis_to_dof agg_part_rels) \<and>
     nat (num_mises agg_part_rels) \<le> length received_mats \<and>
     (\<forall>mis. owned rank agg_part_rels mis \<longrightarrow>
        0 \<le> mises_size agg_part_rels ! mis \<and>
        received_mats ! mis \<noteq> Some [] \<and>
        sized (nat (mises_size agg_part_rels ! mis))
          (Width (spectral agg_part_rels received_mats mis))
          (spectral agg_part_rels received_mats mis) \<and>
        nat (mises_size agg_part_rels ! mis) \<le> length (mis_to_dof agg_part_rels ! mis))"

text \<open>
  The entry \<open>(k, j)\<close> of the polynomial extension as the spec describes it: the columns of
  the contribution, then a column of ones, then (order 1) one column per spatial dimension
  \<open>d\<close> with the coordinate \<open>d\<close> of the dof of row \<open>k\<close>.
\<close>

definition poly_entry ::
  "DenseMatrix \<Rightarrow> int \<Rightarrow> real list \<Rightarrow> int list \<Rightarrow> nat \<Rightarrow> nat \<Rightarrow> real" where
  "poly_entry local_spectral num_nodes coords row k j =
     (if j < Width local_spectral then Elem local_spectral k j
      else if j = Width local_spectral then 1
      else coords ! nat (num_nodes * int (j - Width local_spectral - 1) + row ! k))"

text \<open>The reads \<^verbatim>\<open>coords(num_nodes*d + dof_num)\<close> for the dofs of a MIS stay inside \<open>coords\<close>.\<close>

definition coords_ok ::
  "int \<Rightarrow> int \<Rightarrow> real list \<Rightarrow> int list \<Rightarrow> nat \<Rightarrow> bool" where
  "coords_ok spatial_dimension num_nodes coords row h \<longleftrightarrow>
     (\<forall>k<h. \<forall>d<nat spatial_dimension.
        0 \<le> num_nodes * int d + row ! k \<and>
        num_nodes * int d + row ! k < int (length coords))"

text \<open>
  For the rigid body modes of a MIS with dof list \<open>row\<close> and \<open>h\<close> dofs: \<open>coords\<close> holds
  \<open>spatial_dimension\<close> blocks of \<open>num_nodes\<close> coordinates, and the first dof of every node
  is not negative and belongs to a node below \<open>num_nodes\<close> (which the routine asserts).
\<close>

definition rbm_ok :: "int \<Rightarrow> int \<Rightarrow> real list \<Rightarrow> int list \<Rightarrow> nat \<Rightarrow> bool" where
  "rbm_ok spatial_dimension num_nodes coords row h \<longleftrightarrow>
     num_nodes * spatial_dimension \<le> int (length coords) \<and>
     (\<forall>node. Suc node * nat spatial_dimension \<le> h \<longrightarrow>
        0 \<le> row ! (node * nat spatial_dimension) \<and>
        row ! (node * nat spatial_dimension) sdiv spatial_dimension < num_nodes)"

text \<open>
  The entry in row \<open>k\<close> of the \<open>q\<close>-th appended column of the rigid body extension as the
  spec describes it. Row \<open>k\<close> is component \<open>c\<close> of a node with coordinates \<open>(x, y, z)\<close>.
  The first \<open>spatial_dimension\<close> columns are the translations (an identity block per node);
  then come the rotations: \<open>(y, -x)\<close> in 2-D, and \<open>(y, -x, 0)\<close>, \<open>(0, z, -y)\<close>,
  \<open>(-z, 0, x)\<close> in 3-D.
\<close>

definition rbm_entry ::
  "int \<Rightarrow> int \<Rightarrow> real list \<Rightarrow> int list \<Rightarrow> nat \<Rightarrow> nat \<Rightarrow> real" where
  "rbm_entry spatial_dimension num_nodes coords row k q =
     (let sd = nat spatial_dimension;
          node = k div sd;
          c = k mod sd;
          node_num = row ! (node * sd) sdiv spatial_dimension;
          x = coords ! nat node_num;
          y = coords ! nat (num_nodes + node_num);
          z = coords ! nat (num_nodes * 2 + node_num)
      in if q < sd then (if c = q then 1 else 0)
         else if q = sd then (if c = 0 then y else if c = 1 then - x else 0)
         else if q = sd + 1 then (if c = 0 then 0 else if c = 1 then z else - y)
         else (if c = 0 then - z else if c = 1 then 0 else x))"

text \<open>The number of columns appended for the rigid body modes.\<close>

definition rbm_count :: "int \<Rightarrow> nat" where
  "rbm_count spatial_dimension =
     (if spatial_dimension = 1 then 1 else if spatial_dimension = 2 then 3 else 6)"

section \<open>Auxiliary facts\<close>

lemma then_do_Inr_iff: "then_do m f = Inr y \<longleftrightarrow> (\<exists>x. m = Inr x \<and> f x = Inr y)"
  by (cases m) auto

subsection \<open>Entries written by the simple insertion\<close>

lemma insert_simple_rows_dims:
  "sp_Height (insert_simple_rows thr col ps T) = sp_Height T \<and>
   sp_Width (insert_simple_rows thr col ps T) = sp_Width T"
  by (induction thr col ps T rule: insert_simple_rows.induct) (auto simp: sp_Set_def)

lemma insert_simple_rows_entries:
  "sp_entries (insert_simple_rows thr col ps T) (r, c) =
     (if c = col then
        (case map_of (rev (filter (\<lambda>p. \<bar>snd p\<bar> > thr) ps)) r of
           Some a \<Rightarrow> Some a | None \<Rightarrow> sp_entries T (r, c))
      else sp_entries T (r, c))"
proof (induction thr col ps T rule: insert_simple_rows.induct)
  case (1 thr col T)
  then show ?case by simp
next
  case (2 thr col row a rest T)
  show ?case
    by (auto simp add: 2 sp_Set_def split: option.splits)
qed

lemma insert_simple_cols_fst:
  "fst (insert_simple_cols thr restr cs col T) = col + int (length cs)"
  by (induction cs arbitrary: col T) auto

lemma insert_simple_cols_dims:
  "sp_Height (snd (insert_simple_cols thr restr cs col T)) = sp_Height T \<and>
   sp_Width (snd (insert_simple_cols thr restr cs col T)) = sp_Width T"
  by (induction cs arbitrary: col T) (auto simp: insert_simple_rows_dims)

lemma insert_simple_cols_other:
  "c < col \<or> col + int (length cs) \<le> c \<Longrightarrow>
   sp_entries (snd (insert_simple_cols thr restr cs col T)) (r, c) = sp_entries T (r, c)"
proof (induction cs arbitrary: col T)
  case Nil
  then show ?case by simp
next
  case (Cons a cs)
  have "sp_entries (snd (insert_simple_cols thr restr cs (col + 1)
          (insert_simple_rows thr col (zip restr a) T))) (r, c)
        = sp_entries (insert_simple_rows thr col (zip restr a) T) (r, c)"
    using Cons.prems by (intro Cons.IH) auto
  also have "\<dots> = sp_entries T (r, c)"
    using Cons.prems by (auto simp: insert_simple_rows_entries)
  finally show ?case by simp
qed

lemma insert_simple_cols_at:
  "i < length cs \<Longrightarrow>
   sp_entries (snd (insert_simple_cols thr restr cs col T)) (r, col + int i) =
   sp_entries (insert_simple_rows thr (col + int i) (zip restr (cs ! i)) T) (r, col + int i)"
proof (induction cs arbitrary: col T i)
  case Nil
  then show ?case by simp
next
  case (Cons a cs)
  show ?case
  proof (cases i)
    case 0
    then show ?thesis
      by (simp add: insert_simple_cols_other)
  next
    case (Suc i')
    then have i': "i' < length cs" using Cons.prems by simp
    have e: "col + int i = (col + 1) + int i'" using Suc by simp
    show ?thesis
      unfolding e using Cons.IH [OF i', of "col + 1"] Suc
      by (simp add: insert_simple_rows_entries split: option.splits)
  qed
qed

lemma map_of_rev_filter_distinct:
  "distinct (map fst ps) \<Longrightarrow> (r, a) \<in> set ps \<Longrightarrow>
   map_of (rev (filter P ps)) r = (if P (r, a) then Some a else None)"
proof (induction ps)
  case Nil
  then show ?case by simp
next
  case (Cons p ps)
  obtain r' a' where p: "p = (r', a')" by (cases p)
  show ?case
  proof (cases "(r, a) = p")
    case True
    then have "fst p = r" by auto
    moreover have "fst p \<notin> set (map fst ps)" using Cons.prems(1) by simp
    ultimately have "r \<notin> fst ` set ps" by simp
    then have "r \<notin> fst ` set (rev (filter P ps))"
      by force
    then have "map_of (rev (filter P ps)) r = None"
      by (simp add: map_of_eq_None_iff)
    then show ?thesis using True by (auto simp: map_add_def split: option.splits)
  next
    case False
    then have mem: "(r, a) \<in> set ps" using Cons.prems(2) by simp
    then have "r \<noteq> r'" using Cons.prems(1) p by force
    then show ?thesis using Cons.IH [OF _ mem] Cons.prems(1) p
      by (auto simp: map_add_def split: option.splits)
  qed
qed

lemma zip_restriction_entry:
  "j < length c \<Longrightarrow> length c \<le> length restr \<Longrightarrow> (restr ! j, c ! j) \<in> set (zip restr c)"
  by (auto simp: set_zip)

lemma distinct_fst_zip:
  "distinct (take (length c) restr) \<Longrightarrow> distinct (map fst (zip restr c))"
  by (metis distinct_take map_fst_zip_take take_take)

lemma insert_simple_rows_dropped:
  "\<forall>x\<in>set c. \<bar>x\<bar> \<le> thr \<Longrightarrow> insert_simple_rows thr col (zip restr c) T = T"
proof -
  have "\<forall>p\<in>set ps. \<bar>snd p\<bar> \<le> thr \<Longrightarrow> insert_simple_rows thr col ps T = T" for ps
    by (induction thr col ps T rule: insert_simple_rows.induct) auto
  moreover assume "\<forall>x\<in>set c. \<bar>x\<bar> \<le> thr"
  then have "\<forall>p\<in>set (zip restr c). \<bar>snd p\<bar> \<le> thr"
    by (auto dest: set_zip_rightD)
  ultimately show ?thesis by blast
qed

lemma insert_simple_result:
  assumes "0 < Width local" "Width local \<le> Height local"
    "Height local \<le> length restriction"
  shows "contrib_tent_insert_simple st local restriction =
     Inr (st\<lparr>tent_interp := snd (insert_simple_cols (threshold st) restriction (Cols local)
                 (filled_cols st) (tent_interp st)),
            filled_cols := filled_cols st + int (Width local)\<rparr>)"
  using assms insert_simple_cols_fst [of "threshold st" restriction "Cols local"
      "filled_cols st" "tent_interp st"]
  by (auto simp: contrib_tent_insert_simple_def Let_def Width_def split: prod.splits)

lemma insert_simple_Inr:
  assumes "contrib_tent_insert_simple st local restriction = Inr st'"
  shows "st' = st\<lparr>tent_interp := snd (insert_simple_cols (threshold st) restriction
                 (Cols local) (filled_cols st) (tent_interp st)),
            filled_cols := filled_cols st + int (Width local)\<rparr>"
  using assms insert_simple_cols_fst [of "threshold st" restriction "Cols local"
      "filled_cols st" "tent_interp st"]
  by (auto simp: contrib_tent_insert_simple_def Let_def Width_def
      split: prod.splits if_splits)

lemma insert_simple_entries:
  assumes "0 < Width local" "Width local \<le> Height local"
    "Height local \<le> length restriction" "wf_mat local"
  shows "\<exists>st'. contrib_tent_insert_simple st local restriction = Inr st' \<and>
     filled_cols st' = filled_cols st + int (Width local) \<and>
     (\<forall>i<Width local. (\<forall>x\<in>set (Cols local ! i). \<bar>x\<bar> \<le> threshold st) \<longrightarrow>
        (\<forall>r. sp_entries (tent_interp st') (r, filled_cols st + int i) =
              sp_entries (tent_interp st) (r, filled_cols st + int i))) \<and>
     (distinct (take (Height local) restriction) \<longrightarrow>
        (\<forall>i<Width local. \<forall>j<Height local.
           sp_entries (tent_interp st') (restriction ! j, filled_cols st + int i) =
             (if \<bar>Cols local ! i ! j\<bar> > threshold st then Some (Cols local ! i ! j)
              else sp_entries (tent_interp st) (restriction ! j, filled_cols st + int i))))"
proof -
  let ?T = "snd (insert_simple_cols (threshold st) restriction (Cols local)
                 (filled_cols st) (tent_interp st))"
  let ?st' = "st\<lparr>tent_interp := ?T, filled_cols := filled_cols st + int (Width local)\<rparr>"
  have res: "contrib_tent_insert_simple st local restriction = Inr ?st'"
    using assms(1-3) by (rule insert_simple_result)
  have at: "sp_entries ?T (r, filled_cols st + int i) =
      sp_entries (insert_simple_rows (threshold st) (filled_cols st + int i)
         (zip restriction (Cols local ! i)) (tent_interp st)) (r, filled_cols st + int i)"
    if "i < Width local" for i r
    using that by (simp add: insert_simple_cols_at Width_def)
  have dropped: "sp_entries ?T (r, filled_cols st + int i) =
      sp_entries (tent_interp st) (r, filled_cols st + int i)"
    if "i < Width local" "\<forall>x\<in>set (Cols local ! i). \<bar>x\<bar> \<le> threshold st" for i r
    using that by (simp add: at insert_simple_rows_dropped)
  have stored: "sp_entries ?T (restriction ! j, filled_cols st + int i) =
      (if \<bar>Cols local ! i ! j\<bar> > threshold st then Some (Cols local ! i ! j)
       else sp_entries (tent_interp st) (restriction ! j, filled_cols st + int i))"
    if d: "distinct (take (Height local) restriction)" and i: "i < Width local"
      and j: "j < Height local" for i j
  proof -
    have len: "length (Cols local ! i) = Height local"
      using assms(4) i by (simp add: wf_mat_def Width_def list_all_length)
    have mem: "(restriction ! j, Cols local ! i ! j) \<in> set (zip restriction (Cols local ! i))"
      using j len assms(3) by (intro zip_restriction_entry) auto
    have dist: "distinct (map fst (zip restriction (Cols local ! i)))"
      using d len by (intro distinct_fst_zip) simp
    show ?thesis
      using map_of_rev_filter_distinct [OF dist mem, of "\<lambda>p. \<bar>snd p\<bar> > threshold st"]
      by (simp add: at [OF i] insert_simple_rows_entries)
  qed
  show ?thesis
    using res dropped stored by (intro exI [of _ ?st']) simp
qed

section \<open>The claims\<close>

text \<open>
  C9. A call of \<^verbatim>\<open>contrib_tent_insert_simple\<close> on a local basis of width \<open>v\<close> (which
  the routine asserts to be positive and at most the height) advances \<open>filled_cols\<close> by
  exactly \<open>v\<close>, whatever the threshold. An entry is stored when its magnitude exceeds the
  threshold and dropped otherwise; a column all of whose entries are dropped leaves its
  prolongator column as it was, yet has consumed its coarse dof number. The assertion of
  \<^verbatim>\<open>SVDInsert\<close> on this advance therefore holds, and the count recorded for the MIS is
  \<open>v\<close>.
\<close>

theorem insert_simple_advance:
  assumes "0 < Width local" "Width local \<le> Height local"
    "Height local \<le> length restriction" "wf_mat local"
  shows "\<exists>st'. contrib_tent_insert_simple st local restriction = Inr st' \<and>
     filled_cols st' = filled_cols st + int (Width local) \<and>
     (\<forall>i<Width local. (\<forall>x\<in>set (Cols local ! i). \<bar>x\<bar> \<le> threshold st) \<longrightarrow>
        (\<forall>r. sp_entries (tent_interp st') (r, filled_cols st + int i) =
              sp_entries (tent_interp st) (r, filled_cols st + int i))) \<and>
     (distinct (take (Height local) restriction) \<longrightarrow>
        (\<forall>i<Width local. \<forall>j<Height local.
           sp_entries (tent_interp st') (restriction ! j, filled_cols st + int i) =
             (if \<bar>Cols local ! i ! j\<bar> > threshold st then Some (Cols local ! i ! j)
              else sp_entries (tent_interp st) (restriction ! j, filled_cols st + int i)))) \<and>
     (\<exists>st''. SVDInsert_insert K scaling_P restriction local (st, n) =
               Inr (st'', n + int (Width local)) \<and>
             mis_numcoarsedof st'' = mis_numcoarsedof st @ [int (Width local)] \<and>
             filled_cols st'' = filled_cols st')"
proof -
  obtain st' where r: "contrib_tent_insert_simple st local restriction = Inr st'"
    and f: "filled_cols st' = filled_cols st + int (Width local)"
    and rest: "(\<forall>i<Width local. (\<forall>x\<in>set (Cols local ! i). \<bar>x\<bar> \<le> threshold st) \<longrightarrow>
        (\<forall>r. sp_entries (tent_interp st') (r, filled_cols st + int i) =
              sp_entries (tent_interp st) (r, filled_cols st + int i)))"
     "(distinct (take (Height local) restriction) \<longrightarrow>
        (\<forall>i<Width local. \<forall>j<Height local.
           sp_entries (tent_interp st') (restriction ! j, filled_cols st + int i) =
             (if \<bar>Cols local ! i ! j\<bar> > threshold st then Some (Cols local ! i ! j)
              else sp_entries (tent_interp st) (restriction ! j, filled_cols st + int i))))"
    using insert_simple_entries [OF assms, of st] by blast
  have "\<exists>st''. SVDInsert_insert K scaling_P restriction local (st, n) =
               Inr (st'', n + int (Width local)) \<and>
             mis_numcoarsedof st'' = mis_numcoarsedof st @ [int (Width local)] \<and>
             filled_cols st'' = filled_cols st'"
    using r f assms(1-3)
    by (auto simp: SVDInsert_insert_def Let_def insert_simple_result)
  then show ?thesis using r f rest by blast
qed

theorem insert_simple_advance_witness:
  "\<exists>st'. contrib_tent_insert_simple ((ContribTent_new 3 False)\<lparr>threshold := 1 / 2\<rparr>)
            \<lparr>Height = 2, Cols = [[1, 0], [1 / 4, 0]]\<rparr> [0, 2] = Inr st' \<and>
     filled_cols st' = 2 \<and>
     sp_entries (tent_interp st') (0, 0) = Some 1 \<and>
     (\<forall>r. sp_entries (tent_interp st') (r, 1) = None)"
proof -
  let ?M = "\<lparr>Height = 2, Cols = [[1, 0], [1 / 4, 0]]\<rparr>"
  let ?S = "(ContribTent_new 3 False)\<lparr>threshold := 1 / 2\<rparr>"
  have h1: "0 < Width ?M" and h2: "Width ?M \<le> Height ?M"
    and h3: "Height ?M \<le> length [0, 2 :: int]" and h4: "wf_mat ?M"
    by (simp_all add: Width_def wf_mat_def)
  from insert_simple_advance [OF h1 h2 h3 h4, where st = ?S and K = undefined
      and scaling_P = False and n = 0]
  obtain st' where a: "contrib_tent_insert_simple ?S ?M [0, 2] = Inr st'"
    and b: "filled_cols st' = filled_cols ?S + int (Width ?M)"
    and c: "\<forall>i<Width ?M. (\<forall>x\<in>set (Cols ?M ! i). \<bar>x\<bar> \<le> threshold ?S) \<longrightarrow>
        (\<forall>r. sp_entries (tent_interp st') (r, filled_cols ?S + int i) =
              sp_entries (tent_interp ?S) (r, filled_cols ?S + int i))"
    and d: "distinct (take (Height ?M) [0, 2 :: int]) \<longrightarrow>
        (\<forall>i<Width ?M. \<forall>j<Height ?M.
           sp_entries (tent_interp st') ([0, 2] ! j, filled_cols ?S + int i) =
             (if \<bar>Cols ?M ! i ! j\<bar> > threshold ?S then Some (Cols ?M ! i ! j)
              else sp_entries (tent_interp ?S) ([0, 2] ! j, filled_cols ?S + int i)))"
    by blast
  have "filled_cols st' = 2"
    using b by (simp add: Width_def ContribTent_new_def)
  moreover have "sp_entries (tent_interp st') (0, 0) = Some 1"
    using d [rule_format, of 0 0] by (simp add: Width_def ContribTent_new_def)
  moreover have "\<forall>r. sp_entries (tent_interp st') (r, 1) = None"
  proof -
    have i1: "1 < Width ?M" by (simp add: Width_def)
    have p: "\<forall>x\<in>set (Cols ?M ! 1). \<bar>x\<bar> \<le> threshold ?S"
      by (simp add: ContribTent_new_def)
    from c i1 p
    have "\<forall>r. sp_entries (tent_interp st') (r, filled_cols ?S + int 1) =
              sp_entries (tent_interp ?S) (r, filled_cols ?S + int 1)"
      by blast
    then show ?thesis
      by (simp add: ContribTent_new_def new_SparseMatrix_def)
  qed
  ultimately show ?thesis using a by blast
qed

subsection \<open>What every insertion keeps\<close>

lemma for_loop_preserves:
  assumes "for_loop ks body s = Inr s'" "P s"
    and "\<And>k s s'. k \<in> set ks \<Longrightarrow> P s \<Longrightarrow> body k s = Inr s' \<Longrightarrow> P s'"
  shows "P s'"
  using assms
proof (induction ks arbitrary: s)
  case Nil
  then show ?case by simp
next
  case (Cons k ks)
  from Cons.prems(1) obtain s1 where b: "body k s = Inr s1" and r: "for_loop ks body s1 = Inr s'"
    by (auto simp: then_do_Inr_iff)
  have "P s1" using Cons.prems(3) [OF _ Cons.prems(2) b] by simp
  show ?case
  proof (rule Cons.IH [OF r \<open>P s1\<close>])
    fix j t t'
    assume "j \<in> set ks" "P t" "body j t = Inr t'"
    then show "P t'" using Cons.prems(3) [of j t t'] by simp
  qed
qed

lemma from_local_set_dims:
  "sp_Height (from_local_set col ps T) = sp_Height T"
  by (induction col ps T rule: from_local_set.induct) (auto simp: sp_Set_def)

lemma from_local_cols_inv:
  "from_local_cols avoid rels restr cs (col, nd, T, m, b, msgs) = (col', nd', T', m', b', msgs')
   \<Longrightarrow> col \<le> col' \<and> sp_Height T' = sp_Height T"
proof (induction cs arbitrary: col nd T m b msgs)
  case Nil
  then show ?case by simp
next
  case (Cons c cs)
  obtain nc nz nrm z where r: "from_local_rows avoid rels (zip restr c) = (nc, nz, nrm, z)"
    by (cases "from_local_rows avoid rels (zip restr c)") auto
  show ?case
  proof (cases "nrm < 1 / 1000")
    case True
    then show ?thesis using Cons.prems r Cons.IH by (auto simp: Let_def)
  next
    case False
    then have "from_local_cols avoid rels restr cs
        (col + 1, nd @ [nc], from_local_set col (zip restr nc) T, m \<or> z,
         (if nz > b then nz else b),
         msgs @ (if nrm < 1 / 10 then [AlertSmallNormAccepted nrm] else []))
       = (col', nd', T', m', b', msgs')"
      using Cons.prems r by (simp add: Let_def)
    from Cons.IH [OF this] show ?thesis by (simp add: from_local_set_dims)
  qed
qed

lemma tent_inv_insert_simple:
  "contrib_tent_insert_simple st local restriction = Inr st' \<Longrightarrow> tent_inv ND st \<Longrightarrow>
   tent_inv ND st'"
  by (drule insert_simple_Inr) (simp add: tent_inv_def insert_simple_cols_dims)

lemma tent_inv_insert_from_local:
  assumes "contrib_tent_insert_from_local st rels local restriction = Inr (l', st')"
    "tent_inv ND st"
  shows "tent_inv ND st'"
proof -
  obtain col nd T m b msgs where
    r: "from_local_cols (avoid_ess_bdr_dofs st) rels restriction (Cols local)
          (filled_cols st, [], tent_interp st, False, 0, []) = (col, nd, T, m, b, msgs)"
    by (metis prod_cases6)
  from assms(1) have "st' = st\<lparr>tent_interp := T, filled_cols := col, out_log := out_log st @ msgs\<rparr>"
    by (auto simp: contrib_tent_insert_from_local_def Let_def r split: if_splits)
  then show ?thesis using from_local_cols_inv [OF r] assms(2) by (simp add: tent_inv_def)
qed

lemma filter_boundary_state:
  "contrib_filter_boundary st rels local restriction = Inr (l', st') \<Longrightarrow>
   \<exists>msgs. st' = st\<lparr>out_log := out_log st @ msgs\<rparr>"
  by (auto simp: contrib_filter_boundary_def Let_def split: if_splits prod.splits)

lemma tent_inv_out_log [simp]: "tent_inv ND (st\<lparr>out_log := l\<rparr>) = tent_inv ND st"
  by (simp add: tent_inv_def)

lemma tent_inv_no_coarse_dofs [simp]: "tent_inv ND (no_coarse_dofs d st) = tent_inv ND st"
  by (simp add: tent_inv_def no_coarse_dofs_def)

lemma tent_inv_SVDInsert_insert:
  "SVDInsert_insert K sc dofs basis (st, n) = Inr (st', n') \<Longrightarrow> tent_inv ND st \<Longrightarrow>
   tent_inv ND st'"
  by (auto simp: SVDInsert_insert_def Let_def then_do_Inr_iff tent_inv_def
      insert_simple_cols_dims
      dest!: insert_simple_Inr split: if_splits)

lemma tent_inv_filter_received:
  "filter_received rels dofs q (mats, st, t) = Inr (mats', st', t') \<Longrightarrow> tent_inv ND st \<Longrightarrow>
   tent_inv ND st'"
  by (auto simp: filter_received_def then_do_Inr_iff dest!: filter_boundary_state)

lemma tent_inv_filter_loop:
  assumes "for_loop ks (filter_received rels dofs) (mats, st, t) = Inr (mats', st', t')"
    "tent_inv ND st"
  shows "tent_inv ND st'"
proof -
  have "tent_inv ND (fst (snd (mats', st', t')))"
  proof (rule for_loop_preserves [OF assms(1), of "\<lambda>s. tent_inv ND (fst (snd s))"])
    show "tent_inv ND (fst (snd (mats, st, t)))" using assms(2) by simp
  next
    fix k s s'
    assume "tent_inv ND (fst (snd s))" "filter_received rels dofs k s = Inr s'"
    then show "tent_inv ND (fst (snd s'))"
      by (cases s, cases s') (auto dest: tent_inv_filter_received)
  qed
  then show ?thesis by simp
qed

lemma tent_inv_SVDInsert_svd:
  assumes "SVDInsert_svd K rels sc mis d rsz dofs received (st, n) = Inr (st', n')"
    "tent_inv ND st"
  shows "tent_inv ND st'"
  using assms
  by (auto simp: SVDInsert_svd_def then_do_Inr_iff
      split: if_splits prod.splits
      dest: tent_inv_SVDInsert_insert tent_inv_filter_loop)

lemma tent_inv_SVDInsert_owned:
  assumes "SVDInsert_owned K rels sc mis rsz msz received (st, n) = Inr (st', n')"
    "tent_inv ND st"
  shows "tent_inv ND st'"
  using assms
  by (auto simp: SVDInsert_owned_def then_do_Inr_iff Let_def
      split: if_splits
      dest: tent_inv_SVDInsert_insert tent_inv_SVDInsert_svd)

lemma tent_inv_SVDInsert_mis:
  assumes "SVDInsert_mis K rank rels rm rs sc mis (st, n) = Inr (st', n')" "tent_inv ND st"
  shows "tent_inv ND st'"
  using assms
  by (auto simp: SVDInsert_mis_def then_do_Inr_iff tent_inv_def [of _ "_\<lparr>mis_numcoarsedof := _, mis_tent_interps := _\<rparr>"]
      split: if_splits option.splits
      dest: tent_inv_SVDInsert_owned) (simp_all add: tent_inv_def)

lemma tent_inv_SVDInsert_local:
  assumes "SVDInsert_local K rank st rels rm rs sc = Inr (st', n')" "tent_inv ND st"
  shows "tent_inv ND st'"
proof -
  have "tent_inv ND (fst (st', n'))"
  proof (rule for_loop_preserves [OF assms(1) [unfolded SVDInsert_local_def],
        of "\<lambda>s. tent_inv ND (fst s)"])
    show "tent_inv ND (fst (st\<lparr>mis_tent_interps := [], mis_numcoarsedof := []\<rparr>, 0 :: int))"
      using assms(2) by (simp add: tent_inv_def)
  next
    fix k s s'
    assume "tent_inv ND (fst s)" "SVDInsert_mis K rank rels rm rs sc k s = Inr s'"
    then show "tent_inv ND (fst s')"
      by (cases s, cases s') (auto dest: tent_inv_SVDInsert_mis)
  qed
  then show ?thesis by simp
qed

lemma tent_inv_apply_insertion:
  "apply_insertion i st = Inr st' \<Longrightarrow> tent_inv ND st \<Longrightarrow> tent_inv ND st'"
proof (cases i)
  case (InsertSimple l r)
  assume "apply_insertion i st = Inr st'" "tent_inv ND st"
  then show ?thesis using InsertSimple by (auto dest: tent_inv_insert_simple)
next
  case (InsertFromLocal rels l r)
  assume "apply_insertion i st = Inr st'" "tent_inv ND st"
  then show ?thesis using InsertFromLocal
    by (auto simp: then_do_Inr_iff dest: tent_inv_insert_from_local)
next
  case (InsertSVD K rank rels rm rs sc scanned)
  assume "apply_insertion i st = Inr st'" "tent_inv ND st"
  then obtain st1 n1 where l: "SVDInsert_local K rank st rels rm rs sc = Inr (st1, n1)"
    and e: "st' = SVDInsert_offset scanned (st1, n1)" and i: "tent_inv ND st"
    using InsertSVD by (auto simp: then_do_Inr_iff)
  have "tent_inv ND st1" using tent_inv_SVDInsert_local [OF l i] .
  then show ?thesis using e
    by (simp add: SVDInsert_offset_def Let_def tent_inv_def)
qed

lemma tent_inv_apply_insertions:
  "apply_insertions is st = Inr st' \<Longrightarrow> tent_inv ND st \<Longrightarrow> tent_inv ND st'"
  by (induction "is" arbitrary: st)
    (auto simp: then_do_Inr_iff dest: tent_inv_apply_insertion)

lemma tent_inv_new: "tent_inv ND (ContribTent_new ND avoid)"
  by (simp add: tent_inv_def ContribTent_new_def new_SparseMatrix_def)

lemma finalize_result:
  assumes "tent_inv ND st"
  shows "contrib_tent_finalize st =
     Inr (\<lparr>sp_Height = ND, sp_Width = filled_cols st, sp_entries = sp_entries (tent_interp st)\<rparr>,
          if filled_cols st = 0 then st\<lparr>out_log := out_log st @ [WarnNoCoarseDofs]\<rparr> else st)"
  using assms by (simp add: contrib_tent_finalize_def tent_inv_def Let_def)

text \<open>
  C6. After any sequence of insertions into a freshly constructed builder,
  \<^verbatim>\<open>contrib_tent_finalize\<close> returns a sparse matrix with exactly \<open>rows\<close> (the \<open>ND\<close> of
  the constructor) rows and exactly \<open>filled_cols\<close> columns, holding the entries inserted.
  With \<open>filled_cols = 0\<close> it returns all the same and only prints the warning.
\<close>

theorem finalize_exact:
  assumes "apply_insertions is (ContribTent_new ND avoid) = Inr st"
  shows "\<exists>M st'. contrib_tent_finalize st = Inr (M, st') \<and>
     sp_Height M = rows st \<and> rows st = ND \<and> sp_Width M = filled_cols st \<and>
     sp_entries M = sp_entries (tent_interp st) \<and>
     out_log st' = out_log st @ (if filled_cols st = 0 then [WarnNoCoarseDofs] else [])"
proof -
  have inv: "tent_inv ND st"
    using tent_inv_apply_insertions [OF assms tent_inv_new] .
  show ?thesis
    using inv by (simp add: finalize_result) (simp add: tent_inv_def)
qed

theorem finalize_exact_witness:
  "(\<exists>M st'. contrib_tent_finalize (ContribTent_new 4 True) = Inr (M, st') \<and>
     sp_Height M = 4 \<and> sp_Width M = 0 \<and> out_log st' = [WarnNoCoarseDofs]) \<and>
   (\<exists>st M st'.
     apply_insertions [InsertSimple \<lparr>Height = 2, Cols = [[1, 2]]\<rparr> [0, 3]]
       (ContribTent_new 4 True) = Inr st \<and>
     contrib_tent_finalize st = Inr (M, st') \<and>
     sp_Height M = 4 \<and> sp_Width M = 1 \<and> sp_entries M (3, 0) = Some 2 \<and> out_log st' = [])"
proof
  show "\<exists>M st'. contrib_tent_finalize (ContribTent_new 4 True) = Inr (M, st') \<and>
     sp_Height M = 4 \<and> sp_Width M = 0 \<and> out_log st' = [WarnNoCoarseDofs]"
    using finalize_exact [of "[]" 4 True "ContribTent_new 4 True"]
    by (simp add: ContribTent_new_def) blast
next
  let ?st = "(ContribTent_new 4 True)
     \<lparr>tent_interp := sp_Set 3 0 2 (sp_Set 0 0 1 (new_SparseMatrix 4)), filled_cols := 1\<rparr>"
  have run: "apply_insertions [InsertSimple \<lparr>Height = 2, Cols = [[1, 2]]\<rparr> [0, 3]]
       (ContribTent_new 4 True) = Inr ?st"
    by (simp add: contrib_tent_insert_simple_def Width_def ContribTent_new_def)
  from finalize_exact [OF run]
  obtain M st' where "contrib_tent_finalize ?st = Inr (M, st')"
    "sp_Height M = rows ?st" "sp_Width M = filled_cols ?st"
    "sp_entries M = sp_entries (tent_interp ?st)"
    "out_log st' = out_log ?st @ (if filled_cols ?st = 0 then [WarnNoCoarseDofs] else [])"
    by blast
  then have "contrib_tent_finalize ?st = Inr (M, st') \<and>
     sp_Height M = 4 \<and> sp_Width M = 1 \<and> sp_entries M (3, 0) = Some 2 \<and> out_log st' = []"
    by (simp add: ContribTent_new_def sp_Set_def)
  with run show "\<exists>st M st'.
     apply_insertions [InsertSimple \<lparr>Height = 2, Cols = [[1, 2]]\<rparr> [0, 3]]
       (ContribTent_new 4 True) = Inr st \<and>
     contrib_tent_finalize st = Inr (M, st') \<and>
     sp_Height M = 4 \<and> sp_Width M = 1 \<and> sp_entries M (3, 0) = Some 2 \<and> out_log st' = []"
    by blast
qed

text \<open>
  C8. \<^verbatim>\<open>GetMatrix\<close> of the aggregate-only provider \<^verbatim>\<open>ElementIPMatrix\<close> trips its
  assertion for every element number and so returns no matrix, while
  \<^verbatim>\<open>BuildAEStiff\<close> hands the query to \<^verbatim>\<open>nonconf_AE_matrix\<close> on the interpolation data
  of the provider.
\<close>

theorem GetMatrix_aborts:
  "GetMatrix p elno = Inl AssertFail \<and>
   GetMatrix (ElementIPMatrix_new interp_data) elno = Inl AssertFail \<and>
   BuildAEStiff nonconf_AE_matrix p elno = nonconf_AE_matrix (interp_data_nonconf p) elno \<and>
   BuildAEStiff nonconf_AE_matrix (ElementIPMatrix_new interp_data) elno =
     nonconf_AE_matrix interp_data elno"
  by (simp add: GetMatrix_def BuildAEStiff_def ElementIPMatrix_new_def)

subsection \<open>The boundary filter as a filter of mapped columns\<close>

lemma filter_boundary_rows_eq:
  "filter_boundary_rows avoid rels ps =
     (map (\<lambda>(row, a). if a = 0 \<or> (avoid \<and> agg_is_dof_on_essential_border rels row)
                        then 0 else a) ps,
      \<exists>p\<in>set ps. \<not> (snd p = 0 \<or> (avoid \<and> agg_is_dof_on_essential_border rels (fst p))))"
  by (induction avoid rels ps rule: filter_boundary_rows.induct) auto

lemma filter_boundary_rows_atleastone:
  "snd (filter_boundary_rows avoid rels ps) \<longleftrightarrow>
   (\<exists>x\<in>set (fst (filter_boundary_rows avoid rels ps)). x \<noteq> 0)"
  by (induction avoid rels ps rule: filter_boundary_rows.induct)
     (auto split: prod.splits)

lemma filter_boundary_cols_Cons:
  "filter_boundary_cols avoid rels restr (c # cs) =
     (if snd (filter_boundary_rows avoid rels (zip restr c))
      then (fst (filter_boundary_rows avoid rels (zip restr c)) #
              fst (filter_boundary_cols avoid rels restr cs),
            snd (filter_boundary_cols avoid rels restr cs))
      else (fst (filter_boundary_cols avoid rels restr cs),
            AlertEntireColumnZero # snd (filter_boundary_cols avoid rels restr cs)))"
  by (simp split: prod.splits)

lemma filter_boundary_cols_fst:
  "fst (filter_boundary_cols avoid rels restr cs) =
     filter (\<lambda>c. \<exists>x\<in>set c. x \<noteq> 0)
       (map (\<lambda>c. map (\<lambda>(row, a). if a = 0 \<or> (avoid \<and> agg_is_dof_on_essential_border rels row)
                                    then 0 else a) (zip restr c)) cs)"
proof (induction cs)
  case Nil
  then show ?case by simp
next
  case (Cons c cs)
  let ?f = "\<lambda>c. map (\<lambda>(row, a). if a = 0 \<or> (avoid \<and> agg_is_dof_on_essential_border rels row)
                                    then 0 else a) (zip restr c)"
  have nc: "fst (filter_boundary_rows avoid rels (zip restr c)) = ?f c"
    by (simp add: filter_boundary_rows_eq)
  have alo: "snd (filter_boundary_rows avoid rels (zip restr c)) \<longleftrightarrow> (\<exists>x\<in>set (?f c). x \<noteq> 0)"
    using filter_boundary_rows_atleastone [of avoid rels "zip restr c"] nc by simp
  show ?case
    unfolding filter_boundary_cols_Cons list.map filter.simps Cons.IH [symmetric] nc alo
    by simp
qed

lemma filter_boundary_cols_length:
  "length (fst (filter_boundary_cols avoid rels restr cs)) \<le> length cs"
  unfolding filter_boundary_cols_fst by (rule order_trans [OF length_filter_le]) simp

lemma filter_boundary_cols_snd:
  "snd (filter_boundary_cols avoid rels restr cs) =
     replicate (length cs - length (fst (filter_boundary_cols avoid rels restr cs)))
       AlertEntireColumnZero"
proof (induction cs)
  case Nil
  then show ?case by simp
next
  case (Cons c cs)
  show ?case
    unfolding filter_boundary_cols_Cons
    using Cons.IH filter_boundary_cols_length [of avoid rels restr cs]
    by (simp add: Suc_diff_le)
qed

lemma filter_boundary_result:
  assumes "0 < Width local" "Height local \<le> length restriction"
  shows "contrib_filter_boundary st rels local restriction =
     Inr (\<lparr>Height = Height local,
           Cols = fst (filter_boundary_cols (avoid_ess_bdr_dofs st) rels restriction (Cols local))\<rparr>,
          st\<lparr>out_log := out_log st @
               snd (filter_boundary_cols (avoid_ess_bdr_dofs st) rels restriction (Cols local))\<rparr>)"
  using assms by (simp add: contrib_filter_boundary_def Let_def split: prod.splits)

lemma zeroed_column_nth:
  assumes "j < length c" "length c \<le> length restr"
  shows "map (\<lambda>(row, a). if a = 0 \<or> (avoid \<and> agg_is_dof_on_essential_border rels row)
                          then 0 else a) (zip restr c) ! j =
         (if c ! j = 0 \<or> (avoid \<and> agg_is_dof_on_essential_border rels (restr ! j))
          then 0 else c ! j)"
  using assms by simp

lemma zeroed_column_length:
  "length c \<le> length restr \<Longrightarrow>
   length (map (\<lambda>(row, a). if a = 0 \<or> (avoid \<and> agg_is_dof_on_essential_border rels row)
                          then (0 :: real) else a) (zip restr c)) = length c"
  by simp

lemma zeroed_column_survives:
  assumes "length c \<le> length restr"
  shows "(\<exists>x\<in>set (map (\<lambda>(row, a). if a = 0 \<or> (avoid \<and> agg_is_dof_on_essential_border rels row)
                          then 0 else a) (zip restr c)). x \<noteq> 0) \<longleftrightarrow>
         (\<exists>j<length c. c ! j \<noteq> 0 \<and> \<not> (avoid \<and> agg_is_dof_on_essential_border rels (restr ! j)))"
    (is "?L \<longleftrightarrow> ?R")
proof
  let ?m = "map (\<lambda>(row, a). if a = 0 \<or> (avoid \<and> agg_is_dof_on_essential_border rels row)
                          then 0 else a) (zip restr c)"
  assume ?L
  then obtain x where xs: "x \<in> set ?m" and xn: "x \<noteq> 0" by blast
  from xs obtain j where jm: "j < length ?m" and jx: "?m ! j = x"
    unfolding in_set_conv_nth by blast
  have j: "j < length (zip restr c)" using jm by simp
  have nz: "?m ! j \<noteq> 0" using jx xn by simp
  have jc: "j < length c" using j by simp
  from nz show ?R
    unfolding zeroed_column_nth [OF jc assms]
    using jc by (auto split: if_splits)
next
  assume ?R
  then obtain j where jc: "j < length c" and nz: "c ! j \<noteq> 0"
    and nb: "\<not> (avoid \<and> agg_is_dof_on_essential_border rels (restr ! j))"
    by blast
  let ?m = "map (\<lambda>(row, a). if a = 0 \<or> (avoid \<and> agg_is_dof_on_essential_border rels row)
                          then 0 else a) (zip restr c)"
  have nz': "?m ! j \<noteq> 0"
    unfolding zeroed_column_nth [OF jc assms] using nz nb by simp
  have "j < length ?m" using jc assms by simp
  then have "?m ! j \<in> set ?m" by (rule nth_mem)
  then show ?L using nz' by (rule rev_bexI)
qed

text \<open>
  C2 (amended). For a contribution matrix of positive width (which the routine asserts)
  and a restriction list covering its rows, \<^verbatim>\<open>contrib_filter_boundary\<close> returns the
  matrix of the same height whose columns are the input columns, each with the entries
  that are zero or (with the avoid-boundary option) sit at an essential boundary dof set to
  zero and all other entries unchanged, without the columns that became entirely zero, in
  their original order; one alert is printed per removed column and nothing else of the
  builder changes. For a 3 by 2 matrix whose column 0 is nonzero at boundary-flagged rows
  only, with the option enabled, column 0 is removed, so the output has width 1 when
  column 1 keeps a nonzero entry off the boundary, and width 0 otherwise.
\<close>

theorem filter_boundary_columns:
  assumes "0 < Width local" "Height local \<le> length restriction" "wf_mat local"
  shows "\<exists>local'. contrib_filter_boundary st rels local restriction =
       Inr (local', st\<lparr>out_log := out_log st @
              replicate (Width local - Width local') AlertEntireColumnZero\<rparr>) \<and>
     Height local' = Height local \<and> wf_mat local' \<and>
     Cols local' = filter (\<lambda>c. \<exists>x\<in>set c. x \<noteq> 0)
       (map (\<lambda>c. map (\<lambda>(row, a).
                 if a = 0 \<or> (avoid_ess_bdr_dofs st \<and> agg_is_dof_on_essential_border rels row)
                 then 0 else a) (zip restriction c)) (Cols local)) \<and>
     (Height local = 3 \<and> Width local = 2 \<and> avoid_ess_bdr_dofs st \<and>
      (\<forall>j<3. Cols local ! 0 ! j \<noteq> 0 \<longrightarrow> agg_is_dof_on_essential_border rels (restriction ! j))
      \<longrightarrow> Width local' =
           (if \<exists>j<3. Cols local ! 1 ! j \<noteq> 0 \<and>
                     \<not> agg_is_dof_on_essential_border rels (restriction ! j)
            then 1 else 0))"
proof -
  let ?avoid = "avoid_ess_bdr_dofs st"
  let ?f = "\<lambda>c. map (\<lambda>(row, a).
                 if a = 0 \<or> (?avoid \<and> agg_is_dof_on_essential_border rels row)
                 then 0 else a) (zip restriction c)"
  let ?cs = "fst (filter_boundary_cols ?avoid rels restriction (Cols local))"
  let ?l = "\<lparr>Height = Height local, Cols = ?cs\<rparr>"
  have len: "length c = Height local" if "c \<in> set (Cols local)" for c
    using assms(3) that by (simp add: wf_mat_def list_all_iff)
  have cs: "?cs = filter (\<lambda>c. \<exists>x\<in>set c. x \<noteq> 0) (map ?f (Cols local))"
    by (rule filter_boundary_cols_fst)
  have res: "contrib_filter_boundary st rels local restriction =
       Inr (?l, st\<lparr>out_log := out_log st @
              replicate (Width local - Width ?l) AlertEntireColumnZero\<rparr>)"
    unfolding filter_boundary_result [OF assms(1,2)]
    by (simp add: Width_def filter_boundary_cols_snd [symmetric])
  have wf: "wf_mat ?l"
    unfolding wf_mat_def list_all_iff cs using len assms(2) by auto
  have ex: "Width ?l =
           (if \<exists>j<3. Cols local ! 1 ! j \<noteq> 0 \<and>
                     \<not> agg_is_dof_on_essential_border rels (restriction ! j)
            then 1 else 0)"
    if h: "Height local = 3" and w: "Width local = 2" and av: "?avoid"
      and c0: "\<forall>j<3. Cols local ! 0 ! j \<noteq> 0 \<longrightarrow>
                 agg_is_dof_on_essential_border rels (restriction ! j)"
  proof -
    from w have "length (Cols local) = Suc (Suc 0)" by (simp add: Width_def)
    then obtain a b where ab: "Cols local = [a, b]"
      by (auto simp: length_Suc_conv)
    have la: "length a = 3" and lb: "length b = 3"
      using len [of a] len [of b] ab h by simp_all
    have la': "length a \<le> length restriction" and lb': "length b \<le> length restriction"
      using la lb assms(2) h by simp_all
    have da: "\<not> (\<exists>x\<in>set (?f a). x \<noteq> 0)"
      unfolding zeroed_column_survives [OF la'] using c0 av ab la by auto
    have db: "(\<exists>x\<in>set (?f b). x \<noteq> 0) \<longleftrightarrow>
        (\<exists>j<3. Cols local ! 1 ! j \<noteq> 0 \<and>
                     \<not> agg_is_dof_on_essential_border rels (restriction ! j))"
      unfolding zeroed_column_survives [OF lb'] using av ab lb by simp
    have "filter (\<lambda>c. \<exists>x\<in>set c. x \<noteq> 0) (map ?f (Cols local)) =
        (if (\<exists>x\<in>set (?f b). x \<noteq> 0) then [?f b] else [])"
      unfolding ab using da by simp
    then have "length ?cs = (if (\<exists>x\<in>set (?f b). x \<noteq> 0) then 1 else 0)"
      unfolding cs by simp
    then show ?thesis unfolding db by (simp add: Width_def)
  qed
  show ?thesis
  proof (intro exI [of _ ?l] conjI)
    show "contrib_filter_boundary st rels local restriction =
       Inr (?l, st\<lparr>out_log := out_log st @
              replicate (Width local - Width ?l) AlertEntireColumnZero\<rparr>)"
      by (rule res)
    show "Height ?l = Height local" by simp
    show "wf_mat ?l" by (rule wf)
    show "Cols ?l = filter (\<lambda>c. \<exists>x\<in>set c. x \<noteq> 0) (map ?f (Cols local))"
      using cs by simp
    show "Height local = 3 \<and> Width local = 2 \<and> avoid_ess_bdr_dofs st \<and>
      (\<forall>j<3. Cols local ! 0 ! j \<noteq> 0 \<longrightarrow> agg_is_dof_on_essential_border rels (restriction ! j))
      \<longrightarrow> Width ?l =
           (if \<exists>j<3. Cols local ! 1 ! j \<noteq> 0 \<and>
                     \<not> agg_is_dof_on_essential_border rels (restriction ! j)
            then 1 else 0)"
      by (intro impI, elim conjE, rule ex)
  qed
qed

theorem filter_boundary_columns_witness:
  "\<exists>local'. contrib_filter_boundary (ContribTent_new 3 True)
       \<lparr>num_mises = 1, mis_master = [0], mises_size = [3], mis_to_dof = [[0, 1, 2]],
        ess_bdr = (\<lambda>d. d = 1)\<rparr>
       \<lparr>Height = 3, Cols = [[0, 5, 0], [1, 2, 3]]\<rparr> [0, 1, 2] =
     Inr (local', (ContribTent_new 3 True)\<lparr>out_log := [AlertEntireColumnZero]\<rparr>) \<and>
     Height local' = 3 \<and> Cols local' = [[1, 0, 3]]"
proof -
  let ?M = "\<lparr>Height = 3, Cols = [[0, 5, 0], [1, 2, 3]]\<rparr>"
  let ?R = "\<lparr>num_mises = 1, mis_master = [0], mises_size = [3], mis_to_dof = [[0, 1, 2]],
        ess_bdr = (\<lambda>d. d = (1 :: int))\<rparr>"
  let ?S = "ContribTent_new 3 True"
  have h1: "0 < Width ?M" and h2: "Height ?M \<le> length [0, 1, 2 :: int]" and h3: "wf_mat ?M"
    by (simp_all add: Width_def wf_mat_def)
  from filter_boundary_columns [OF h1 h2 h3, of ?S ?R]
  obtain local' where
    r: "contrib_filter_boundary ?S ?R ?M [0, 1, 2] =
       Inr (local', ?S\<lparr>out_log := out_log ?S @
              replicate (Width ?M - Width local') AlertEntireColumnZero\<rparr>)"
    and h: "Height local' = Height ?M"
    and c: "Cols local' = filter (\<lambda>c. \<exists>x\<in>set c. x \<noteq> 0)
       (map (\<lambda>c. map (\<lambda>(row, a).
                 if a = 0 \<or> (avoid_ess_bdr_dofs ?S \<and> agg_is_dof_on_essential_border ?R row)
                 then 0 else a) (zip [0, 1, 2] c)) (Cols ?M))"
    by blast
  have c': "Cols local' = [[1, 0, 3]]"
    unfolding c by (simp add: ContribTent_new_def agg_is_dof_on_essential_border_def)
  then have w: "Width local' = 1" by (simp add: Width_def)
  show ?thesis
    using r h c' unfolding w by (intro exI [of _ local']) (simp add: Width_def ContribTent_new_def)
qed

theorem filter_boundary_example_counterexample:
  "contrib_filter_boundary (ContribTent_new 3 True)
       \<lparr>num_mises = 1, mis_master = [0], mises_size = [3], mis_to_dof = [[0, 1, 2]],
        ess_bdr = (\<lambda>d. d = 1)\<rparr>
       \<lparr>Height = 3, Cols = [[0, 5, 0], [0, 7, 0]]\<rparr> [0, 1, 2] =
     Inr (\<lparr>Height = 3, Cols = []\<rparr>,
          (ContribTent_new 3 True)\<lparr>out_log := [AlertEntireColumnZero, AlertEntireColumnZero]\<rparr>) \<and>
   Width \<lparr>Height = 3, Cols = []\<rparr> \<noteq> 1"
  by (simp add: contrib_filter_boundary_def Width_def ContribTent_new_def
      agg_is_dof_on_essential_border_def)

subsection \<open>The columns kept by the deprecated insertion\<close>









subsection \<open>Loops over an index range, and writes into a matrix\<close>

lemma for_loop_upt_from:
  assumes "I a s" "a \<le> n"
    and "\<And>k s. a \<le> k \<Longrightarrow> k < n \<Longrightarrow> I k s \<Longrightarrow> \<exists>s'. body k s = Inr s' \<and> I (Suc k) s'"
  shows "\<exists>s'. for_loop [a..<n] body s = Inr s' \<and> I n s'"
  using assms
proof (induction "n - a" arbitrary: a s)
  case 0
  then show ?case by simp
next
  case (Suc d)
  then have an: "a < n" by simp
  from Suc.prems(3) [OF le_refl an Suc.prems(1)]
  obtain s1 where b: "body a s = Inr s1" and i1: "I (Suc a) s1" by blast
  have d: "d = n - Suc a" using Suc.hyps(2) by simp
  have "\<exists>s'. for_loop [Suc a..<n] body s1 = Inr s' \<and> I n s'"
  proof (rule Suc.hyps(1) [OF d i1])
    show "Suc a \<le> n" using an by simp
  next
    fix k t
    assume "Suc a \<le> k" "k < n" "I k t"
    then show "\<exists>s'. body k t = Inr s' \<and> I (Suc k) s'"
      using Suc.prems(3) [of k t] by simp
  qed
  then show ?case using b an by (simp add: upt_conv_Cons)
qed

lemma for_loop_upt:
  assumes "I 0 s"
    and "\<And>k s. k < n \<Longrightarrow> I k s \<Longrightarrow> \<exists>s'. body k s = Inr s' \<and> I (Suc k) s'"
  shows "\<exists>s'. for_loop [0..<n] body s = Inr s' \<and> I n s'"
  using for_loop_upt_from [of I 0 s n body] assms by simp

lemma set_Elem_ok:
  assumes "Height m = h" "Width m = w" "wf_mat m" "k < h" "j < w"
  shows "\<exists>m'. set_Elem k j v m = Inr m' \<and> Height m' = h \<and> Width m' = w \<and> wf_mat m' \<and>
     (\<forall>k' j'. k' < h \<longrightarrow> j' < w \<longrightarrow>
        Elem m' k' j' = (if k' = k \<and> j' = j then v else Elem m k' j'))"
proof -
  let ?m' = "m\<lparr>Cols := (Cols m)[j := (Cols m ! j)[k := v]]\<rparr>"
  have r: "set_Elem k j v m = Inr ?m'"
    using assms by (simp add: set_Elem_def put_Elem_def)
  have len: "length (Cols m ! j') = h" if "j' < w" for j'
    using assms(1-3) that by (simp add: wf_mat_def Width_def list_all_length)
  have wf: "wf_mat ?m'"
    unfolding wf_mat_def list_all_length
  proof (intro allI impI)
    fix n assume "n < length (Cols ?m')"
    then have n: "n < w" using assms(2) by (simp add: Width_def)
    then have "n < length (Cols m)" using assms(2) by (simp add: Width_def)
    then show "length (Cols ?m' ! n) = Height ?m'"
      using len [OF n] assms(1) by (cases "n = j") simp_all
  qed
  have el: "Elem ?m' k' j' = (if k' = k \<and> j' = j then v else Elem m k' j')"
    if "k' < h" "j' < w" for k' j'
    using that assms(2,4,5) len [of j]
    by (auto simp: Elem_def Width_def nth_list_update)
  show ?thesis
    using r wf el assms(1,2) by (intro exI [of _ ?m']) (simp add: Width_def)
qed

lemma new_DenseMatrix_ok:
  assumes "0 \<le> w"
  shows "\<exists>m. new_DenseMatrix h w = Inr m \<and> Height m = h \<and> Width m = nat w \<and> wf_mat m \<and>
     (\<forall>k j. k < h \<longrightarrow> j < nat w \<longrightarrow> Elem m k j = 0)"
  using assms
  by (simp add: new_DenseMatrix_def Width_def wf_mat_def list_all_length Elem_def)

lemma set_Elem_sized:
  assumes "sized h w m" "k < h" "j < w"
  obtains m' where "set_Elem k j v m = Inr m'" "sized h w m'"
    "\<And>k' j'. k' < h \<Longrightarrow> j' < w \<Longrightarrow>
        Elem m' k' j' = (if k' = k \<and> j' = j then v else Elem m k' j')"
proof -
  from assms(1) have "Height m = h" "Width m = w" "wf_mat m" by (simp_all add: sized_def)
  from set_Elem_ok [OF this assms(2,3), of v]
  obtain m' where "set_Elem k j v m = Inr m'" "Height m' = h \<and> Width m' = w \<and> wf_mat m'"
    "\<forall>k' j'. k' < h \<longrightarrow> j' < w \<longrightarrow>
        Elem m' k' j' = (if k' = k \<and> j' = j then v else Elem m k' j')"
    by blast
  then show thesis using that [of m'] by (simp add: sized_def)
qed

lemma copy_row_sized:
  assumes l: "sized h w l" and e: "sized h nw e" and wn: "w \<le> nw" and k: "k < h"
  obtains e' where "copy_row l k e = Inr e'" "sized h nw e'"
    "\<And>k' j'. k' < h \<Longrightarrow> j' < nw \<Longrightarrow>
        Elem e' k' j' = (if k' = k \<and> j' < w then Elem l k j' else Elem e k' j')"
proof -
  let ?I = "\<lambda>j x. sized h nw x \<and> (\<forall>k' j'. k' < h \<longrightarrow> j' < nw \<longrightarrow>
        Elem x k' j' = (if k' = k \<and> j' < j then Elem l k j' else Elem e k' j'))"
  have "\<exists>e'. for_loop [0..<w]
          (\<lambda>j x. then_do (get_Elem l k j) (\<lambda>v. set_Elem k j v x)) e = Inr e' \<and> ?I w e'"
  proof (rule for_loop_upt [where I = "?I"])
    show "?I 0 e" using e by simp
  next
    fix j x
    assume j: "j < w" and I: "?I j x"
    have g: "get_Elem l k j = Inr (Elem l k j)"
      using l k j by (simp add: get_Elem_def sized_def)
    from I have sx: "sized h nw x" by simp
    from j wn have jn: "j < nw" by simp
    from set_Elem_sized [OF sx k jn, of "Elem l k j"]
    obtain x' where s: "set_Elem k j (Elem l k j) x = Inr x'" and sx': "sized h nw x'"
      and el: "\<And>k' j'. k' < h \<Longrightarrow> j' < nw \<Longrightarrow>
        Elem x' k' j' = (if k' = k \<and> j' = j then Elem l k j else Elem x k' j')"
      by blast
    have "?I (Suc j) x'"
      using sx' el I by (auto simp: less_Suc_eq)
    then show "\<exists>s'. then_do (get_Elem l k j) (\<lambda>v. set_Elem k j v x) = Inr s' \<and> ?I (Suc j) s'"
      using g s by simp
  qed
  then show thesis
    using that l by (auto simp: copy_row_def sized_def)
qed

subsection \<open>The polynomial extension, row by row\<close>

lemma poly_row_sized:
  assumes l: "sized h w l" and e: "sized h nw e" and k: "k < h"
    and nw: "nw = w + 1 + (if order = 1 then nat sd else 0)"
    and c: "order = 1 \<longrightarrow> k < length row \<and> coords_ok sd nn coords row h"
  obtains e' where "poly_row l order sd nn coords row k e = Inr e'" "sized h nw e'"
    "\<And>k' j'. k' < h \<Longrightarrow> j' < nw \<Longrightarrow>
        Elem e' k' j' = (if k' = k then poly_entry l nn coords row k j' else Elem e k' j')"
proof -
  have wl: "Width l = w" using l by (simp add: sized_def)
  have wn: "w \<le> nw" and wn': "w < nw" using nw by simp_all
  from copy_row_sized [OF l e wn k]
  obtain e1 where r1: "copy_row l k e = Inr e1" and s1: "sized h nw e1"
    and el1: "\<And>k' j'. k' < h \<Longrightarrow> j' < nw \<Longrightarrow>
        Elem e1 k' j' = (if k' = k \<and> j' < w then Elem l k j' else Elem e k' j')"
    by blast
  from set_Elem_sized [OF s1 k wn', of 1]
  obtain e2 where r2: "set_Elem k w 1 e1 = Inr e2" and s2: "sized h nw e2"
    and el2: "\<And>k' j'. k' < h \<Longrightarrow> j' < nw \<Longrightarrow>
        Elem e2 k' j' = (if k' = k \<and> j' = w then 1 else Elem e1 k' j')"
    by blast
  show thesis
  proof (cases "order = 1")
    case False
    then have nw1: "nw = w + 1" using nw by simp
    have "poly_row l order sd nn coords row k e = Inr e2"
      using r1 r2 False by (simp add: poly_row_def wl)
    moreover have "Elem e2 k' j' = (if k' = k then poly_entry l nn coords row k j' else Elem e k' j')"
      if "k' < h" "j' < nw" for k' j'
      using that el1 el2 nw1 by (auto simp: poly_entry_def wl)
    ultimately show thesis using that s2 by blast
  next
    case True
    then have kr: "k < length row" and co: "coords_ok sd nn coords row h"
      and nws: "nw = w + 1 + nat sd" using c nw by simp_all
    let ?body = "\<lambda>d x. then_do (nth_chk row k) (\<lambda>dof_num.
                  then_do (vec_at coords (nn * int d + dof_num)) (\<lambda>v.
                  set_Elem k (w + d + 1) v x))"
    let ?I = "\<lambda>d x. sized h nw x \<and> (\<forall>k' j'. k' < h \<longrightarrow> j' < nw \<longrightarrow>
        Elem x k' j' = (if k' = k \<and> w < j' \<and> j' \<le> w + d
                        then coords ! nat (nn * int (j' - w - 1) + row ! k)
                        else Elem e2 k' j'))"
    have "\<exists>e'. for_loop [0..<nat sd] ?body e2 = Inr e' \<and> ?I (nat sd) e'"
    proof (rule for_loop_upt [where I = "?I"])
      show "?I 0 e2" using s2 by simp
    next
      fix d x
      assume d: "d < nat sd" and I: "?I d x"
      have n: "nth_chk row k = Inr (row ! k)" using kr by (simp add: nth_chk_def)
      have v: "vec_at coords (nn * int d + row ! k) = Inr (coords ! nat (nn * int d + row ! k))"
        using co k d by (simp add: vec_at_def coords_ok_def)
      from I have sx: "sized h nw x" by simp
      have jn: "w + d + 1 < nw" using d nws by simp
      from set_Elem_sized [OF sx k jn, of "coords ! nat (nn * int d + row ! k)"]
      obtain x' where s: "set_Elem k (w + d + 1) (coords ! nat (nn * int d + row ! k)) x = Inr x'"
        and sx': "sized h nw x'"
        and el: "\<And>k' j'. k' < h \<Longrightarrow> j' < nw \<Longrightarrow>
          Elem x' k' j' = (if k' = k \<and> j' = w + d + 1
                           then coords ! nat (nn * int d + row ! k) else Elem x k' j')"
        by blast
      have "?I (Suc d) x'"
      proof (intro conjI allI impI)
        show "sized h nw x'" by (rule sx')
      next
        fix k' j' assume kj: "k' < h" "j' < nw"
        show "Elem x' k' j' = (if k' = k \<and> w < j' \<and> j' \<le> w + Suc d
                        then coords ! nat (nn * int (j' - w - 1) + row ! k)
                        else Elem e2 k' j')"
        proof (cases "k' = k \<and> j' = w + d + 1")
          case True
          then show ?thesis using el [OF kj] by simp
        next
          case False
          then have "Elem x' k' j' = Elem x k' j'" using el [OF kj] by auto
          also have "\<dots> = (if k' = k \<and> w < j' \<and> j' \<le> w + d
                        then coords ! nat (nn * int (j' - w - 1) + row ! k)
                        else Elem e2 k' j')"
            using I kj by simp
          finally show ?thesis using False by (auto simp: le_Suc_eq)
        qed
      qed
      then show "\<exists>s'. ?body d x = Inr s' \<and> ?I (Suc d) s'"
        using n v s by simp
    qed
    then obtain e3 where r3: "for_loop [0..<nat sd] ?body e2 = Inr e3" and I3: "?I (nat sd) e3"
      by blast
    have "poly_row l order sd nn coords row k e = Inr e3"
      using r1 r2 r3 True by (simp add: poly_row_def wl)
    moreover have "sized h nw e3" using I3 by simp
    moreover have "Elem e3 k' j' = (if k' = k then poly_entry l nn coords row k j' else Elem e k' j')"
      if kj: "k' < h" "j' < nw" for k' j'
    proof -
      have "Elem e3 k' j' = (if k' = k \<and> w < j' \<and> j' \<le> w + nat sd
                        then coords ! nat (nn * int (j' - w - 1) + row ! k)
                        else Elem e2 k' j')"
        using I3 kj by simp
      then show ?thesis
        using el1 [OF kj] el2 [OF kj] kj nws by (auto simp: poly_entry_def wl)
    qed
    ultimately show thesis using that by blast
  qed
qed

lemma poly_rows_sized:
  assumes l: "sized h w l" and e: "sized h nw e"
    and nw: "nw = w + 1 + (if order = 1 then nat sd else 0)"
    and c: "order = 1 \<longrightarrow> h \<le> length row \<and> coords_ok sd nn coords row h"
  obtains e' where "for_loop [0..<h] (poly_row l order sd nn coords row) e = Inr e'"
    "sized h nw e'"
    "\<And>k j. k < h \<Longrightarrow> j < nw \<Longrightarrow> Elem e' k j = poly_entry l nn coords row k j"
proof -
  let ?I = "\<lambda>k x. sized h nw x \<and>
     (\<forall>k' j'. k' < k \<longrightarrow> j' < nw \<longrightarrow> Elem x k' j' = poly_entry l nn coords row k' j')"
  have "\<exists>e'. for_loop [0..<h] (poly_row l order sd nn coords row) e = Inr e' \<and> ?I h e'"
  proof (rule for_loop_upt [where I = "?I"])
    show "?I 0 e" using e by simp
  next
    fix k x
    assume k: "k < h" and I: "?I k x"
    from I have sx: "sized h nw x" by simp
    have c': "order = 1 \<longrightarrow> k < length row \<and> coords_ok sd nn coords row h"
      using c k by auto
    from poly_row_sized [OF l sx k nw c']
    obtain x' where r: "poly_row l order sd nn coords row k x = Inr x'" and sx': "sized h nw x'"
      and el: "\<And>k' j'. k' < h \<Longrightarrow> j' < nw \<Longrightarrow>
        Elem x' k' j' = (if k' = k then poly_entry l nn coords row k j' else Elem x k' j')"
      by blast
    have "?I (Suc k) x'"
      using sx' el I k by (auto simp: less_Suc_eq)
    then show "\<exists>s'. poly_row l order sd nn coords row k x = Inr s' \<and> ?I (Suc k) s'"
      using r by simp
  qed
  then show thesis using that by blast
qed

lemma slot_or_new_spectral:
  assumes "0 \<le> mises_size rels ! mis" "s ! mis \<noteq> Some []"
  shows "slot_or_new (s ! mis) (mises_size rels ! mis) =
           Inr (spectral rels s mis # others s mis)"
  using assms
  by (cases "s ! mis") (auto simp: slot_or_new_def spectral_def others_def neq_Nil_conv)

lemma poly_mis_not_owned:
  "mis < length (mis_master rels) \<Longrightarrow> mis_master rels ! mis \<noteq> rank \<Longrightarrow>
   poly_mis rank rels order sd nn coords mis s = Inr s"
  by (simp add: poly_mis_def nth_chk_def)

lemma poly_mis_throws:
  assumes "mis < length (mis_master rels)" "mis_master rels ! mis = rank"
    "mis < length (mises_size rels)" "mis < length s"
    "0 \<le> mises_size rels ! mis" "s ! mis \<noteq> Some []"
    "Height (spectral rels s mis) = nat (mises_size rels ! mis)"
    "order \<noteq> 0" "order \<noteq> 1"
  shows "poly_mis rank rels order sd nn coords mis s = Inl (Thrown 1)"
  using assms slot_or_new_spectral [OF assms(5,6)]
  by (simp add: poly_mis_def nth_chk_def)

lemma poly_mis_owned:
  assumes b: "mis < length (mis_master rels)" "mis_master rels ! mis = rank"
    "mis < length (mises_size rels)" "mis < length s" "mis < length (mis_to_dof rels)"
    and msz: "0 \<le> mises_size rels ! mis" and slot: "s ! mis \<noteq> Some []"
    and l: "sized (nat (mises_size rels ! mis)) w (spectral rels s mis)"
    and row: "nat (mises_size rels ! mis) \<le> length (mis_to_dof rels ! mis)"
    and ord: "order = 0 \<or> order = 1"
    and c: "order = 1 \<longrightarrow> 0 \<le> sd \<and>
          coords_ok sd nn coords (mis_to_dof rels ! mis) (nat (mises_size rels ! mis))"
  obtains ext where
    "poly_mis rank rels order sd nn coords mis s = Inr (s[mis := Some (ext # others s mis)])"
    "sized (nat (mises_size rels ! mis)) (w + 1 + (if order = 1 then nat sd else 0)) ext"
    "\<And>k j. k < nat (mises_size rels ! mis) \<Longrightarrow>
            j < w + 1 + (if order = 1 then nat sd else 0) \<Longrightarrow>
            Elem ext k j = poly_entry (spectral rels s mis) nn coords (mis_to_dof rels ! mis) k j"
proof -
  let ?l = "spectral rels s mis"
  let ?h = "nat (mises_size rels ! mis)"
  let ?nw = "w + 1 + (if order = 1 then nat sd else 0)"
  let ?row = "mis_to_dof rels ! mis"
  have hl: "Height ?l = ?h" and wl: "Width ?l = w" using l by (simp_all add: sized_def)
  have nwi: "(if order = 0 then Inr (int w + 1)
              else if order = 1 then Inr (int w + sd + 1) else Inl (Thrown 1))
             = (Inr (int ?nw) :: error + int)"
    using ord c by auto
  from new_DenseMatrix_ok [of "int ?nw" ?h]
  obtain e0 where r0: "new_DenseMatrix ?h (int ?nw) = Inr e0" and s0: "sized ?h ?nw e0"
    by (auto simp: sized_def)
  have c': "order = 1 \<longrightarrow> ?h \<le> length ?row \<and> coords_ok sd nn coords ?row ?h"
    using c row by simp
  from poly_rows_sized [OF l s0 refl c']
  obtain ext where r1: "for_loop [0..<?h] (poly_row ?l order sd nn coords ?row) e0 = Inr ext"
    and s1: "sized ?h ?nw ext"
    and el: "\<And>k j. k < ?h \<Longrightarrow> j < ?nw \<Longrightarrow> Elem ext k j = poly_entry ?l nn coords ?row k j"
    by blast
  have hint: "int (Height ?l) = mises_size rels ! mis" using hl msz by simp
  have "poly_mis rank rels order sd nn coords mis s = Inr (s[mis := Some (ext # others s mis)])"
    unfolding poly_mis_def
    by (simp only: nth_chk_def b if_True then_do.simps slot_or_new_spectral [OF msz slot]
        list.case hint simp_thms if_False Let_def wl nwi nat_int hl [symmetric]
        r0 [unfolded hl [symmetric]] r1 [unfolded hl [symmetric]])
  then show thesis using that s1 el by blast
qed

lemma mis_loop:
  fixes body :: "nat \<Rightarrow> received_mats_t \<Rightarrow> error + received_mats_t"
  assumes len: "n \<le> length rm"
    and step: "\<And>k s. k < n \<Longrightarrow> length s = length rm \<Longrightarrow> s ! k = rm ! k \<Longrightarrow>
                (\<not> own k \<and> body k s = Inr s) \<or>
                (own k \<and> (\<exists>x. body k s = Inr (s[k := x]) \<and> Q k x))"
  shows "\<exists>rm'. for_loop [0..<n] body rm = Inr rm' \<and> length rm' = length rm \<and>
           (\<forall>m<length rm. if m < n \<and> own m then Q m (rm' ! m) else rm' ! m = rm ! m)"
proof -
  let ?I = "\<lambda>k s. length s = length rm \<and>
           (\<forall>m<length rm. if m < k \<and> own m then Q m (s ! m) else s ! m = rm ! m)"
  have "\<exists>rm'. for_loop [0..<n] body rm = Inr rm' \<and> ?I n rm'"
  proof (rule for_loop_upt [where I = "?I"])
    show "?I 0 rm" by simp
  next
    fix k s
    assume k: "k < n" and I: "?I k s"
    from I have ls: "length s = length rm" by simp
    have kl: "k < length rm" using k len by simp
    have sk: "s ! k = rm ! k" using I kl by auto
    from step [OF k ls sk] show "\<exists>s'. body k s = Inr s' \<and> ?I (Suc k) s'"
    proof
      assume a: "\<not> own k \<and> body k s = Inr s"
      then have "?I (Suc k) s" using I by (auto simp: less_Suc_eq)
      then show ?thesis using a by blast
    next
      assume "own k \<and> (\<exists>x. body k s = Inr (s[k := x]) \<and> Q k x)"
      then obtain x where o: "own k" and b: "body k s = Inr (s[k := x])" and q: "Q k x"
        by blast
      have "?I (Suc k) (s[k := x])"
        using I o q kl by (auto simp: less_Suc_eq nth_list_update)
      then show ?thesis using b by blast
    qed
  qed
  then show ?thesis by blast
qed

lemma for_loop_abort:
  assumes "\<forall>k\<in>set ks. body k s = Inr s \<or> body k s = Inl e" "\<exists>k\<in>set ks. body k s = Inl e"
  shows "for_loop ks body s = Inl e"
  using assms
proof (induction ks)
  case Nil
  then show ?case by simp
next
  case (Cons k ks)
  show ?case
  proof (cases "body k s")
    case (Inl e')
    then show ?thesis using Cons.prems(1) by auto
  next
    case (Inr s')
    then have s': "s' = s" and "body k s \<noteq> Inl e" using Cons.prems(1) by auto
    then have "\<exists>k\<in>set ks. body k s = Inl e" using Cons.prems(2) by auto
    then show ?thesis using Cons.IH Cons.prems(1) Inr s' by simp
  qed
qed

lemma spectral_cong: "s ! mis = rm ! mis \<Longrightarrow> spectral rels s mis = spectral rels rm mis"
  by (simp add: spectral_def)

lemma others_cong: "s ! mis = rm ! mis \<Longrightarrow> others s mis = others rm mis"
  by (simp add: others_def)

text \<open>
  C4. Let the arrays be complete and the slot of every owned MIS be null or start with a
  contribution matrix of \<^verbatim>\<open>mis_size\<close> rows and width \<open>w\<close>. With order 0,
  \<^verbatim>\<open>ExtendWithPolynomials\<close> returns, and for every owned MIS the new matrix has width
  \<open>w + 1\<close>, the old columns unchanged and 1 in every row of column \<open>w\<close>. With order 1 (a
  spatial dimension that is not negative, the coordinate reads inside \<open>coords\<close>) it has
  width \<open>w + 1 + spatial_dimension\<close>: the old columns, the column of ones, and in column
  \<open>w + d + 1\<close> the value \<^verbatim>\<open>coords(num_nodes*d + dof)\<close> for the dof of each row. With any
  other order and at least one owned MIS it throws 1.
\<close>

theorem ExtendWithPolynomials_columns:
  assumes ok: "slots_ok rank rels rm"
  shows "(order = 0 \<or> order = 1 \<and> 0 \<le> sd \<and>
            (\<forall>mis. owned rank rels mis \<longrightarrow>
               coords_ok sd nn coords (mis_to_dof rels ! mis) (nat (mises_size rels ! mis)))
          \<longrightarrow>
          (\<exists>rm'. ExtendWithPolynomials rank rm rels order sd nn coords = Inr rm' \<and>
             length rm' = length rm \<and>
             (\<forall>mis. owned rank rels mis \<longrightarrow>
                (\<exists>ext. rm' ! mis = Some (ext # others rm mis) \<and>
                   sized (Height (spectral rels rm mis))
                     (Width (spectral rels rm mis) + 1 + (if order = 1 then nat sd else 0)) ext \<and>
                   (\<forall>k<Height (spectral rels rm mis).
                      (\<forall>j<Width (spectral rels rm mis).
                         Elem ext k j = Elem (spectral rels rm mis) k j) \<and>
                      Elem ext k (Width (spectral rels rm mis)) = 1 \<and>
                      (order = 1 \<longrightarrow>
                        (\<forall>d<nat sd. Elem ext k (Width (spectral rels rm mis) + d + 1) =
                           coords ! nat (nn * int d + mis_to_dof rels ! mis ! k)))))))) \<and>
         (order \<noteq> 0 \<and> order \<noteq> 1 \<and> (\<exists>mis. owned rank rels mis) \<longrightarrow>
          ExtendWithPolynomials rank rm rels order sd nn coords = Inl (Thrown 1))"
proof (intro conjI impI)
  let ?n = "nat (num_mises rels)"
  let ?body = "poly_mis rank rels order sd nn coords"
  from ok have lens: "?n \<le> length (mis_master rels)" "?n \<le> length (mises_size rels)"
    "?n \<le> length (mis_to_dof rels)" "?n \<le> length rm"
    by (simp_all add: slots_ok_def)
  have own: "0 \<le> mises_size rels ! mis \<and> rm ! mis \<noteq> Some [] \<and>
        sized (nat (mises_size rels ! mis)) (Width (spectral rels rm mis)) (spectral rels rm mis) \<and>
        nat (mises_size rels ! mis) \<le> length (mis_to_dof rels ! mis)"
    if "owned rank rels mis" for mis
    using ok that by (simp add: slots_ok_def)
  {
    assume o: "order = 0 \<or> order = 1 \<and> 0 \<le> sd \<and>
            (\<forall>mis. owned rank rels mis \<longrightarrow>
               coords_ok sd nn coords (mis_to_dof rels ! mis) (nat (mises_size rels ! mis)))"
    let ?Q = "\<lambda>mis x. \<exists>ext. x = Some (ext # others rm mis) \<and>
         sized (nat (mises_size rels ! mis))
           (Width (spectral rels rm mis) + 1 + (if order = 1 then nat sd else 0)) ext \<and>
         (\<forall>k j. k < nat (mises_size rels ! mis) \<longrightarrow>
            j < Width (spectral rels rm mis) + 1 + (if order = 1 then nat sd else 0) \<longrightarrow>
            Elem ext k j = poly_entry (spectral rels rm mis) nn coords (mis_to_dof rels ! mis) k j)"
    have "\<exists>rm'. for_loop [0..<?n] ?body rm = Inr rm' \<and> length rm' = length rm \<and>
           (\<forall>m<length rm. if m < ?n \<and> mis_master rels ! m = rank then ?Q m (rm' ! m)
                            else rm' ! m = rm ! m)"
    proof (rule mis_loop [OF lens(4), where Q = "?Q"])
      fix k s
      assume k: "k < ?n" and ls: "length s = length rm" and sk: "s ! k = rm ! k"
      show "(\<not> mis_master rels ! k = rank \<and> ?body k s = Inr s) \<or>
            (mis_master rels ! k = rank \<and> (\<exists>x. ?body k s = Inr (s[k := x]) \<and> ?Q k x))"
      proof (cases "mis_master rels ! k = rank")
        case False
        then show ?thesis using poly_mis_not_owned [of k rels rank] k lens(1) by simp
      next
        case True
        then have ow: "owned rank rels k" using k by (simp add: owned_def)
        note sp = spectral_cong [OF sk, of rels] and ot = others_cong [OF sk]
        have b: "k < length (mis_master rels)" "mis_master rels ! k = rank"
          "k < length (mises_size rels)" "k < length s" "k < length (mis_to_dof rels)"
          using k lens ls True by simp_all
        have slot: "s ! k \<noteq> Some []" using own [OF ow] sk by simp
        have l: "sized (nat (mises_size rels ! k)) (Width (spectral rels rm k)) (spectral rels s k)"
          using own [OF ow] sp by simp
        have ord: "order = 0 \<or> order = 1" using o by blast
        have c: "order = 1 \<longrightarrow> 0 \<le> sd \<and>
          coords_ok sd nn coords (mis_to_dof rels ! k) (nat (mises_size rels ! k))"
          using o ow by auto
        from own [OF ow] have msz: "0 \<le> mises_size rels ! k"
          and row: "nat (mises_size rels ! k) \<le> length (mis_to_dof rels ! k)" by simp_all
        from poly_mis_owned [OF b msz slot l row ord c]
        obtain ext where "?body k s = Inr (s[k := Some (ext # others s k)])"
          "sized (nat (mises_size rels ! k))
             (Width (spectral rels rm k) + 1 + (if order = 1 then nat sd else 0)) ext"
          "\<And>i j. i < nat (mises_size rels ! k) \<Longrightarrow>
            j < Width (spectral rels rm k) + 1 + (if order = 1 then nat sd else 0) \<Longrightarrow>
            Elem ext i j = poly_entry (spectral rels s k) nn coords (mis_to_dof rels ! k) i j"
          by blast
        then have "?body k s = Inr (s[k := Some (ext # others rm k)]) \<and> ?Q k (Some (ext # others rm k))"
          unfolding sp ot by simp
        then show ?thesis using True by blast
      qed
    qed
    then obtain rm' where r0: "for_loop [0..<?n] ?body rm = Inr rm'"
      and lr: "length rm' = length rm"
      and q0: "\<forall>m<length rm. if m < ?n \<and> mis_master rels ! m = rank then ?Q m (rm' ! m)
                            else rm' ! m = rm ! m"
      by blast
    have r: "ExtendWithPolynomials rank rm rels order sd nn coords = Inr rm'"
      unfolding ExtendWithPolynomials_def by (rule r0)
    have q: "?Q m (rm' ! m)"
      if "m < length rm" "m < ?n" "mis_master rels ! m = rank" for m
    proof -
      from q0 that(1)
      have "if m < ?n \<and> mis_master rels ! m = rank then ?Q m (rm' ! m)
            else rm' ! m = rm ! m" by blast
      with that(2,3) show ?thesis by (simp only: simp_thms if_True)
    qed
    have "\<exists>ext. rm' ! mis = Some (ext # others rm mis) \<and>
                   sized (Height (spectral rels rm mis))
                     (Width (spectral rels rm mis) + 1 + (if order = 1 then nat sd else 0)) ext \<and>
                   (\<forall>k<Height (spectral rels rm mis).
                      (\<forall>j<Width (spectral rels rm mis).
                         Elem ext k j = Elem (spectral rels rm mis) k j) \<and>
                      Elem ext k (Width (spectral rels rm mis)) = 1 \<and>
                      (order = 1 \<longrightarrow>
                        (\<forall>d<nat sd. Elem ext k (Width (spectral rels rm mis) + d + 1) =
                           coords ! nat (nn * int d + mis_to_dof rels ! mis ! k))))"
      if ow: "owned rank rels mis" for mis
    proof -
      have m: "mis < ?n" "mis_master rels ! mis = rank" using ow by (simp_all add: owned_def)
      then have ml: "mis < length rm" using lens(4) by simp
      from q [OF ml m] obtain ext where e: "rm' ! mis = Some (ext # others rm mis)"
        and s: "sized (nat (mises_size rels ! mis))
           (Width (spectral rels rm mis) + 1 + (if order = 1 then nat sd else 0)) ext"
        and el: "\<And>k j. k < nat (mises_size rels ! mis) \<Longrightarrow>
            j < Width (spectral rels rm mis) + 1 + (if order = 1 then nat sd else 0) \<Longrightarrow>
            Elem ext k j = poly_entry (spectral rels rm mis) nn coords (mis_to_dof rels ! mis) k j"
        by blast
      have h: "Height (spectral rels rm mis) = nat (mises_size rels ! mis)"
        using own [OF ow] by (simp add: sized_def)
      show ?thesis
        using e s el h by (intro exI [of _ ext]) (simp add: poly_entry_def)
    qed
    with r lr show "\<exists>rm'. ExtendWithPolynomials rank rm rels order sd nn coords = Inr rm' \<and>
             length rm' = length rm \<and>
             (\<forall>mis. owned rank rels mis \<longrightarrow>
                (\<exists>ext. rm' ! mis = Some (ext # others rm mis) \<and>
                   sized (Height (spectral rels rm mis))
                     (Width (spectral rels rm mis) + 1 + (if order = 1 then nat sd else 0)) ext \<and>
                   (\<forall>k<Height (spectral rels rm mis).
                      (\<forall>j<Width (spectral rels rm mis).
                         Elem ext k j = Elem (spectral rels rm mis) k j) \<and>
                      Elem ext k (Width (spectral rels rm mis)) = 1 \<and>
                      (order = 1 \<longrightarrow>
                        (\<forall>d<nat sd. Elem ext k (Width (spectral rels rm mis) + d + 1) =
                           coords ! nat (nn * int d + mis_to_dof rels ! mis ! k))))))"
      by blast
  }
  {
    assume t: "order \<noteq> 0 \<and> order \<noteq> 1 \<and> (\<exists>mis. owned rank rels mis)"
    have each: "?body k rm = Inr rm \<or> ?body k rm = Inl (Thrown 1)" if "k \<in> set [0..<?n]" for k
    proof (cases "mis_master rels ! k = rank")
      case False
      then show ?thesis using poly_mis_not_owned [of k rels rank] that lens(1) by simp
    next
      case True
      then have ow: "owned rank rels k" using that by (simp add: owned_def)
      have "?body k rm = Inl (Thrown 1)"
        using poly_mis_throws [of k rels rank rm order sd nn coords] own [OF ow] that lens True t
        by (simp add: sized_def)
      then show ?thesis by simp
    qed
    from t obtain mis where ow: "owned rank rels mis" by blast
    then have mn: "mis \<in> set [0..<?n]" and mo: "mis_master rels ! mis = rank"
      by (simp_all add: owned_def)
    have "?body mis rm = Inl (Thrown 1)"
      using poly_mis_throws [of mis rels rank rm order sd nn coords] own [OF ow] mn lens mo t
      by (simp add: sized_def)
    with mn have "\<exists>k\<in>set [0..<?n]. ?body k rm = Inl (Thrown 1)" by blast
    with each show "ExtendWithPolynomials rank rm rels order sd nn coords = Inl (Thrown 1)"
      unfolding ExtendWithPolynomials_def by (intro for_loop_abort) blast+
  }
qed

theorem ExtendWithPolynomials_columns_witness:
  "(\<exists>rm' ext. ExtendWithPolynomials 0 [Some [\<lparr>Height = 2, Cols = [[5, 6]]\<rparr>], None]
       \<lparr>num_mises = 2, mis_master = [0, 1], mises_size = [2, 1],
        mis_to_dof = [[0, 1], [2]], ess_bdr = (\<lambda>d. False)\<rparr>
       1 2 3 [10, 11, 12, 20, 21, 22] = Inr rm' \<and>
     rm' ! 0 = Some [ext] \<and> sized 2 4 ext \<and>
     Elem ext 0 0 = 5 \<and> Elem ext 0 1 = 1 \<and> Elem ext 1 1 = 1 \<and>
     Elem ext 0 2 = 10 \<and> Elem ext 1 2 = 11 \<and> Elem ext 0 3 = 20 \<and> Elem ext 1 3 = 21) \<and>
   ExtendWithPolynomials 0 [Some [\<lparr>Height = 2, Cols = [[5, 6]]\<rparr>], None]
       \<lparr>num_mises = 2, mis_master = [0, 1], mises_size = [2, 1],
        mis_to_dof = [[0, 1], [2]], ess_bdr = (\<lambda>d. False)\<rparr>
       2 2 3 [10, 11, 12, 20, 21, 22] = Inl (Thrown 1)"
proof -
  let ?rm = "[Some [\<lparr>Height = 2, Cols = [[5, 6]]\<rparr>], None]"
  let ?R = "\<lparr>num_mises = 2, mis_master = [0, 1], mises_size = [2, 1],
        mis_to_dof = [[0, 1], [2]], ess_bdr = (\<lambda>d :: int. False)\<rparr>"
  let ?co = "[10, 11, 12, 20, 21, 22] :: real list"
  have own: "owned 0 ?R mis \<longleftrightarrow> mis = 0" for mis
    by (auto simp: owned_def less_Suc_eq numeral_2_eq_2)
  have sp: "spectral ?R ?rm 0 = \<lparr>Height = 2, Cols = [[5, 6]]\<rparr>"
    and ot: "others ?rm 0 = []"
    by (simp_all add: spectral_def others_def)
  have ok: "slots_ok 0 ?R ?rm"
    by (simp add: slots_ok_def own sp sized_def Width_def wf_mat_def)
  have co: "\<forall>mis. owned 0 ?R mis \<longrightarrow>
       coords_ok 2 3 ?co (mis_to_dof ?R ! mis) (nat (mises_size ?R ! mis))"
    by (simp add: own coords_ok_def less_Suc_eq numeral_2_eq_2)
  note inst = ExtendWithPolynomials_columns [OF ok]
  have pre: "(1 :: int) = 0 \<or> (1 :: int) = 1 \<and> (0 :: int) \<le> 2 \<and>
       (\<forall>mis. owned 0 ?R mis \<longrightarrow>
          coords_ok 2 3 ?co (mis_to_dof ?R ! mis) (nat (mises_size ?R ! mis)))"
    using co by simp
  from inst [of 1 2 3 ?co, THEN conjunct1, rule_format, OF pre]
  obtain rm' where r: "ExtendWithPolynomials 0 ?rm ?R 1 2 3 ?co = Inr rm'"
    and q: "\<forall>mis. owned 0 ?R mis \<longrightarrow>
                (\<exists>ext. rm' ! mis = Some (ext # others ?rm mis) \<and>
                   sized (Height (spectral ?R ?rm mis))
                     (Width (spectral ?R ?rm mis) + 1 + (if (1 :: int) = 1 then nat 2 else 0)) ext \<and>
                   (\<forall>k<Height (spectral ?R ?rm mis).
                      (\<forall>j<Width (spectral ?R ?rm mis).
                         Elem ext k j = Elem (spectral ?R ?rm mis) k j) \<and>
                      Elem ext k (Width (spectral ?R ?rm mis)) = 1 \<and>
                      ((1 :: int) = 1 \<longrightarrow>
                        (\<forall>d<nat 2. Elem ext k (Width (spectral ?R ?rm mis) + d + 1) =
                           ?co ! nat (3 * int d + mis_to_dof ?R ! mis ! k)))))"
    by blast
  from q own [of 0]
  obtain ext where e0: "rm' ! 0 = Some (ext # others ?rm 0)"
    and s0: "sized (Height (spectral ?R ?rm 0))
                     (Width (spectral ?R ?rm 0) + 1 + (if (1 :: int) = 1 then nat 2 else 0)) ext"
    and el0: "\<forall>k<Height (spectral ?R ?rm 0).
                      (\<forall>j<Width (spectral ?R ?rm 0).
                         Elem ext k j = Elem (spectral ?R ?rm 0) k j) \<and>
                      Elem ext k (Width (spectral ?R ?rm 0)) = 1 \<and>
                      ((1 :: int) = 1 \<longrightarrow>
                        (\<forall>d<nat 2. Elem ext k (Width (spectral ?R ?rm 0) + d + 1) =
                           ?co ! nat (3 * int d + mis_to_dof ?R ! 0 ! k)))"
    by blast
  have e: "rm' ! 0 = Some [ext]" using e0 by (simp add: ot)
  have w4: "Width (spectral ?R ?rm 0) + 1 + (if (1 :: int) = 1 then nat 2 else 0) = 4"
    and h2: "Height (spectral ?R ?rm 0) = 2"
    by (simp_all add: sp Width_def)
  have s: "sized 2 4 ext" using s0 unfolding w4 h2 .
  have k0: "0 < Height (spectral ?R ?rm 0)" and k1: "1 < Height (spectral ?R ?rm 0)"
    by (simp_all add: sp)
  have d0: "0 < nat 2" and d1: "1 < nat 2" by simp_all
  note a0 = el0 [rule_format, OF k0] and a1 = el0 [rule_format, OF k1]
  have j0: "0 < Width (spectral ?R ?rm 0)" by (simp add: sp Width_def)
  have "Elem ext 0 0 = 5"
    using a0 [THEN conjunct1, rule_format, OF j0] by (simp add: sp Elem_def)
  moreover have "Elem ext 0 1 = 1" "Elem ext 1 1 = 1"
    using a0 [THEN conjunct2, THEN conjunct1] a1 [THEN conjunct2, THEN conjunct1]
    by (simp_all add: sp Width_def)
  moreover have "Elem ext 0 (Suc (Suc 0)) = 10" "Elem ext 1 (Suc (Suc 0)) = 11"
    using a0 [THEN conjunct2, THEN conjunct2, rule_format, OF refl d0]
      a1 [THEN conjunct2, THEN conjunct2, rule_format, OF refl d0]
    by (simp_all add: sp Width_def)
  then have "Elem ext 0 2 = 10" "Elem ext 1 2 = 11"
    by (simp_all add: numeral_2_eq_2)
  moreover have "Elem ext 0 (Suc (Suc (Suc 0))) = 20" "Elem ext 1 (Suc (Suc (Suc 0))) = 21"
    using a0 [THEN conjunct2, THEN conjunct2, rule_format, OF refl d1]
      a1 [THEN conjunct2, THEN conjunct2, rule_format, OF refl d1]
    by (simp_all add: sp Width_def)
  then have "Elem ext 0 3 = 20" "Elem ext 1 3 = 21"
    by (simp_all add: numeral_3_eq_3)
  ultimately have "Elem ext 0 0 = 5 \<and> Elem ext 0 1 = 1 \<and> Elem ext 1 1 = 1 \<and>
     Elem ext 0 2 = 10 \<and> Elem ext 1 2 = 11 \<and> Elem ext 0 3 = 20 \<and> Elem ext 1 3 = 21"
    by simp
  with r e s have first: "\<exists>rm' ext. ExtendWithPolynomials 0 ?rm ?R 1 2 3 ?co = Inr rm' \<and>
     rm' ! 0 = Some [ext] \<and> sized 2 4 ext \<and>
     Elem ext 0 0 = 5 \<and> Elem ext 0 1 = 1 \<and> Elem ext 1 1 = 1 \<and>
     Elem ext 0 2 = 10 \<and> Elem ext 1 2 = 11 \<and> Elem ext 0 3 = 20 \<and> Elem ext 1 3 = 21"
    by blast
  have "(2 :: int) \<noteq> 0 \<and> (2 :: int) \<noteq> 1 \<and> (\<exists>mis. owned 0 ?R mis)" using own by simp
  from inst [of 2 2 3 ?co, THEN conjunct2, rule_format, OF this]
  have second: "ExtendWithPolynomials 0 ?rm ?R 2 2 3 ?co = Inl (Thrown 1)" .
  from first second show ?thesis by blast
qed

subsection \<open>The rigid body modes, node by node\<close>

lemma put_Elem_Height [simp]: "Height (put_Elem k j v m) = Height m"
  by (simp add: put_Elem_def)

lemma put_Elem_Width [simp]: "Width (put_Elem k j v m) = Width m"
  by (simp add: put_Elem_def Width_def)

lemma put_Elem_wf [simp]:
  assumes "wf_mat m"
  shows "wf_mat (put_Elem k j v m)"
  unfolding wf_mat_def list_all_length
proof (intro allI impI)
  fix n assume "n < length (Cols (put_Elem k j v m))"
  then have n: "n < length (Cols m)" by (simp add: put_Elem_def)
  then have "length (Cols m ! n) = Height m"
    using assms by (simp add: wf_mat_def list_all_length)
  then show "length (Cols (put_Elem k j v m) ! n) = Height (put_Elem k j v m)"
    using n by (cases "n = j") (simp_all add: put_Elem_def)
qed

lemma Elem_put_Elem:
  "wf_mat m \<Longrightarrow> k < Height m \<Longrightarrow> j < Width m \<Longrightarrow>
   Elem (put_Elem k j v m) k' j' = (if k' = k \<and> j' = j then v else Elem m k' j')"
  unfolding wf_mat_def list_all_length put_Elem_def Elem_def Width_def
  by (auto simp: nth_list_update)

lemma set_Elem_put:
  "k < Height m \<Longrightarrow> j < Width m \<Longrightarrow> set_Elem k j v m = Inr (put_Elem k j v m)"
  by (simp add: set_Elem_def)

lemma sdiv_nonneg:
  fixes a b :: int
  assumes "0 \<le> a" "0 < b"
  shows "a sdiv b = a div b"
  using assms by (simp add: signed_divide_int_def sgn_if)

lemma rbm_copy_sized:
  assumes l: "sized h w l" and e: "sized h nw e" and wn: "w \<le> nw"
  obtains e' where "for_loop [0..<h] (copy_row l) e = Inr e'" "sized h nw e'"
    "\<And>k j. k < h \<Longrightarrow> j < nw \<Longrightarrow> Elem e' k j = (if j < w then Elem l k j else Elem e k j)"
proof -
  let ?I = "\<lambda>k x. sized h nw x \<and> (\<forall>k' j'. k' < h \<longrightarrow> j' < nw \<longrightarrow>
        Elem x k' j' = (if k' < k \<and> j' < w then Elem l k' j' else Elem e k' j'))"
  have "\<exists>e'. for_loop [0..<h] (copy_row l) e = Inr e' \<and> ?I h e'"
  proof (rule for_loop_upt [where I = "?I"])
    show "?I 0 e" using e by simp
  next
    fix k x
    assume k: "k < h" and I: "?I k x"
    from I have sx: "sized h nw x" by simp
    from copy_row_sized [OF l sx wn k]
    obtain x' where r: "copy_row l k x = Inr x'" and sx': "sized h nw x'"
      and el: "\<And>k' j'. k' < h \<Longrightarrow> j' < nw \<Longrightarrow>
        Elem x' k' j' = (if k' = k \<and> j' < w then Elem l k j' else Elem x k' j')"
      by blast
    have "?I (Suc k) x'"
      using sx' el I by (auto simp: less_Suc_eq)
    then show "\<exists>s'. copy_row l k x = Inr s' \<and> ?I (Suc k) s'"
      using r by simp
  qed
  then show thesis using that by auto
qed

lemma rbm_node_2:
  assumes x: "sized h (w + 3) x" and n: "Suc node * 2 \<le> h" and r: "node * 2 < length row"
    and r0: "0 \<le> row ! (node * 2)" "row ! (node * 2) sdiv 2 < nn"
    and co: "nn * 2 \<le> int (length coords)"
  obtains x' where "rbm_node 2 nn coords row w node x = Inr x'" "sized h (w + 3) x'"
    "\<And>k j. k < h \<Longrightarrow> j < w + 3 \<Longrightarrow> Elem x' k j =
       (if k = node * 2 \<and> j = w then 1
        else if k = node * 2 + 1 \<and> j = w + 1 then 1
        else if k = node * 2 \<and> j = w + 2 then coords ! nat (nn + row ! (node * 2) sdiv 2)
        else if k = node * 2 + 1 \<and> j = w + 2 then - (coords ! nat (row ! (node * 2) sdiv 2))
        else Elem x k j)"
proof -
  let ?nn = "row ! (node * 2) sdiv 2"
  have nn0: "0 \<le> ?nn" using r0(1) by (simp add: sdiv_nonneg)
  have hx: "Height x = h" and wx: "Width x = w + 3" and wf: "wf_mat x"
    using x by (simp_all add: sized_def)
  have v0: "vec_at coords (nn * 0 + ?nn) = Inr (coords ! nat ?nn)"
    and v1: "vec_at coords (nn * 1 + ?nn) = Inr (coords ! nat (nn + ?nn))"
    using nn0 r0(2) co by (simp_all add: vec_at_def)
  let ?x' = "put_Elem (node * 2 + 1) (w + 2) (- (coords ! nat ?nn))
              (put_Elem (node * 2) (w + 2) (coords ! nat (nn + ?nn))
                (put_Elem (node * 2 + 1) (w + 1) 1 (put_Elem (node * 2) w 1 x)))"
  have loop: "for_loop [0..<2] (\<lambda>d. set_Elem (node * 2 + d) (w + d) 1) x =
      Inr (put_Elem (node * 2 + 1) (w + 1) 1 (put_Elem (node * 2) w 1 x))"
    using n hx wx by (simp add: numeral_2_eq_2 set_Elem_put)
  have res: "rbm_node 2 nn coords row w node x = Inr ?x'"
    unfolding rbm_node_def Let_def
    using n hx wx r r0(2) loop v0 v1
    by (simp add: nth_chk_def set_Elem_put)
  have s: "sized h (w + 3) ?x'" using hx wx wf by (simp add: sized_def)
  have el: "Elem ?x' k j =
       (if k = node * 2 \<and> j = w then 1
        else if k = node * 2 + 1 \<and> j = w + 1 then 1
        else if k = node * 2 \<and> j = w + 2 then coords ! nat (nn + ?nn)
        else if k = node * 2 + 1 \<and> j = w + 2 then - (coords ! nat ?nn)
        else Elem x k j)" for k j
    using n hx wx wf by (simp add: Elem_put_Elem)
  show thesis using that [OF res s] el by blast
qed

lemma rbm_node_1:
  assumes x: "sized h (w + 1) x" and n: "Suc node \<le> h" and r: "node < length row"
    and r0: "row ! node sdiv 1 < nn"
  obtains x' where "rbm_node 1 nn coords row w node x = Inr x'" "sized h (w + 1) x'"
    "\<And>k j. k < h \<Longrightarrow> j < w + 1 \<Longrightarrow> Elem x' k j =
       (if k = node \<and> j = w then 1 else Elem x k j)"
proof -
  have hx: "Height x = h" and wx: "Width x = w + 1" and wf: "wf_mat x"
    using x by (simp_all add: sized_def)
  let ?x' = "put_Elem node w 1 x"
  have res: "rbm_node 1 nn coords row w node x = Inr ?x'"
    unfolding rbm_node_def Let_def
    using n hx wx r r0
    by (simp add: nth_chk_def set_Elem_put)
  have s: "sized h (w + 1) ?x'" using hx wx wf by (simp add: sized_def)
  have el: "Elem ?x' k j = (if k = node \<and> j = w then 1 else Elem x k j)" for k j
    using n hx wx wf by (simp add: Elem_put_Elem)
  show thesis using that [OF res s] el by blast
qed

lemma rbm_node_3:
  assumes x: "sized h (w + 6) x" and n: "Suc node * 3 \<le> h" and r: "node * 3 < length row"
    and r0: "0 \<le> row ! (node * 3)" "row ! (node * 3) sdiv 3 < nn"
    and co: "nn * 3 \<le> int (length coords)"
  obtains x' where "rbm_node 3 nn coords row w node x = Inr x'" "sized h (w + 6) x'"
    "\<And>k j. k < h \<Longrightarrow> j < w + 6 \<Longrightarrow> Elem x' k j =
       (if k = node * 3 \<and> j = w then 1
        else if k = node * 3 + 1 \<and> j = w + 1 then 1
        else if k = node * 3 + 2 \<and> j = w + 2 then 1
        else if k = node * 3 \<and> j = w + 3 then coords ! nat (nn + row ! (node * 3) sdiv 3)
        else if k = node * 3 + 1 \<and> j = w + 3 then - (coords ! nat (row ! (node * 3) sdiv 3))
        else if k = node * 3 \<and> j = w + 4 then 0
        else if k = node * 3 \<and> j = w + 5 then - (coords ! nat (nn * 2 + row ! (node * 3) sdiv 3))
        else if k = node * 3 + 1 \<and> j = w + 4 then coords ! nat (nn * 2 + row ! (node * 3) sdiv 3)
        else if k = node * 3 + 1 \<and> j = w + 5 then 0
        else if k = node * 3 + 2 \<and> j = w + 4 then - (coords ! nat (nn + row ! (node * 3) sdiv 3))
        else if k = node * 3 + 2 \<and> j = w + 5 then coords ! nat (row ! (node * 3) sdiv 3)
        else Elem x k j)"
proof -
  let ?nn = "row ! (node * 3) sdiv 3"
  have nn0: "0 \<le> ?nn" using r0(1) by (simp add: sdiv_nonneg)
  have hx: "Height x = h" and wx: "Width x = w + 6" and wf: "wf_mat x"
    using x by (simp_all add: sized_def)
  have v0: "vec_at coords (nn * 0 + ?nn) = Inr (coords ! nat ?nn)"
    and v1: "vec_at coords (nn * 1 + ?nn) = Inr (coords ! nat (nn + ?nn))"
    and v2: "vec_at coords (nn * 2 + ?nn) = Inr (coords ! nat (nn * 2 + ?nn))"
    using nn0 r0(2) co by (simp_all add: vec_at_def)
  let ?X = "coords ! nat ?nn" and ?Y = "coords ! nat (nn + ?nn)"
    and ?Z = "coords ! nat (nn * 2 + ?nn)"
  let ?e1 = "put_Elem (node * 3 + 2) (w + 2) 1
              (put_Elem (node * 3 + 1) (w + 1) 1 (put_Elem (node * 3) w 1 x))"
  let ?e2 = "put_Elem (node * 3 + 1) (w + 3) (- ?X) (put_Elem (node * 3) (w + 3) ?Y ?e1)"
  let ?x' = "put_Elem (node * 3 + 2) (w + 3 + 2) ?X
              (put_Elem (node * 3 + 2) (w + 3 + 1) (- ?Y)
                (put_Elem (node * 3 + 1) (w + 3 + 2) 0
                  (put_Elem (node * 3 + 1) (w + 3 + 1) ?Z
                    (put_Elem (node * 3) (w + 3 + 2) (- ?Z)
                      (put_Elem (node * 3) (w + 3 + 1) 0 ?e2)))))"
  have loop: "for_loop [0..<3] (\<lambda>d. set_Elem (node * 3 + d) (w + d) 1) x = Inr ?e1"
    using n hx wx by (simp add: numeral_3_eq_3 set_Elem_put)
  have res: "rbm_node 3 nn coords row w node x = Inr ?x'"
    unfolding rbm_node_def Let_def
    using n hx wx r r0(2) loop v0 v1 v2
    by (simp add: nth_chk_def set_Elem_put)
  have s: "sized h (w + 6) ?x'" using hx wx wf by (simp add: sized_def)
  have el: "Elem ?x' k j =
       (if k = node * 3 \<and> j = w then 1
        else if k = node * 3 + 1 \<and> j = w + 1 then 1
        else if k = node * 3 + 2 \<and> j = w + 2 then 1
        else if k = node * 3 \<and> j = w + 3 then ?Y
        else if k = node * 3 + 1 \<and> j = w + 3 then - ?X
        else if k = node * 3 \<and> j = w + 4 then 0
        else if k = node * 3 \<and> j = w + 5 then - ?Z
        else if k = node * 3 + 1 \<and> j = w + 4 then ?Z
        else if k = node * 3 + 1 \<and> j = w + 5 then 0
        else if k = node * 3 + 2 \<and> j = w + 4 then - ?Y
        else if k = node * 3 + 2 \<and> j = w + 5 then ?X
        else Elem x k j)" for k j
    using n hx wx wf by (simp add: Elem_put_Elem)
  show thesis using that [OF res s] el by blast
qed

lemma rbm_node_entry:
  assumes sd: "sd = 1 \<or> sd = 2 \<or> sd = 3"
    and x: "sized h (w + rbm_count sd) x"
    and n: "Suc node * nat sd \<le> h" and r: "node * nat sd < length row"
    and r0: "0 \<le> row ! (node * nat sd)" "row ! (node * nat sd) sdiv sd < nn"
    and co: "nn * sd \<le> int (length coords)"
    and z: "\<And>k j. node * nat sd \<le> k \<Longrightarrow> k < Suc node * nat sd \<Longrightarrow> w \<le> j \<Longrightarrow>
              j < w + rbm_count sd \<Longrightarrow> Elem x k j = 0"
  obtains x' where "rbm_node sd nn coords row w node x = Inr x'"
    "sized h (w + rbm_count sd) x'"
    "\<And>k j. k < h \<Longrightarrow> j < w + rbm_count sd \<Longrightarrow> Elem x' k j =
       (if node * nat sd \<le> k \<and> k < Suc node * nat sd \<and> w \<le> j
        then rbm_entry sd nn coords row k (j - w) else Elem x k j)"
proof -
  consider "sd = 1" | "sd = 2" | "sd = 3" using sd by blast
  then show thesis
  proof cases
    case 1
    have p: "sized h (w + 1) x" "Suc node \<le> h" "node < length row" "row ! node sdiv 1 < nn"
      using x n r r0 1 by (simp_all add: rbm_count_def)
    from rbm_node_1 [OF p, of coords]
    obtain x' where res: "rbm_node 1 nn coords row w node x = Inr x'"
      and s: "sized h (w + 1) x'"
      and el: "\<And>k j. k < h \<Longrightarrow> j < w + 1 \<Longrightarrow> Elem x' k j =
         (if k = node \<and> j = w then 1 else Elem x k j)"
      by blast
    have "Elem x' k j =
       (if node * nat sd \<le> k \<and> k < Suc node * nat sd \<and> w \<le> j
        then rbm_entry sd nn coords row k (j - w) else Elem x k j)"
      if "k < h" "j < w + rbm_count sd" for k j
      using that el [of k j] 1 by (auto simp: rbm_count_def rbm_entry_def)
    then show ?thesis using that [of x'] res s 1 by (simp add: rbm_count_def)
  next
    case 2
    have p: "sized h (w + 3) x" "Suc node * 2 \<le> h" "node * 2 < length row"
      "0 \<le> row ! (node * 2)" "row ! (node * 2) sdiv 2 < nn" "nn * 2 \<le> int (length coords)"
      using x n r r0 co 2 by (simp_all add: rbm_count_def)
    from rbm_node_2 [OF p]
    obtain x' where res: "rbm_node 2 nn coords row w node x = Inr x'"
      and s: "sized h (w + 3) x'"
      and el: "\<And>k j. k < h \<Longrightarrow> j < w + 3 \<Longrightarrow> Elem x' k j =
       (if k = node * 2 \<and> j = w then 1
        else if k = node * 2 + 1 \<and> j = w + 1 then 1
        else if k = node * 2 \<and> j = w + 2 then coords ! nat (nn + row ! (node * 2) sdiv 2)
        else if k = node * 2 + 1 \<and> j = w + 2 then - (coords ! nat (row ! (node * 2) sdiv 2))
        else Elem x k j)"
      by blast
    have d0: "(node * 2) div 2 = node" "(node * 2) mod 2 = 0"
      and d1: "Suc (node * 2) div 2 = node" "Suc (node * 2) mod 2 = Suc 0"
      by presburger+
    have "Elem x' k j =
       (if node * nat sd \<le> k \<and> k < Suc node * nat sd \<and> w \<le> j
        then rbm_entry sd nn coords row k (j - w) else Elem x k j)"
      if kj: "k < h" "j < w + rbm_count sd" for k j
    proof (cases "node * 2 \<le> k \<and> k < Suc node * 2 \<and> w \<le> j")
      case False
      have j3: "j < w + 3" using kj 2 by (simp add: rbm_count_def)
      from False consider "k < node * 2" | "Suc node * 2 \<le> k" | "j < w" by linarith
      then have "Elem x' k j = Elem x k j"
        by cases (simp_all add: el [OF kj(1) j3])
      moreover have "\<not> (node * nat sd \<le> k \<and> k < Suc node * nat sd \<and> w \<le> j)"
        using False 2 by simp
      ultimately show ?thesis by (simp only: if_False)
    next
      case True
      then have kc: "k = node * 2 \<or> k = node * 2 + 1" by auto
      have jc: "j = w \<or> j = w + 1 \<or> j = w + 2"
        using True kj 2 by (auto simp: rbm_count_def)
      have zz: "Elem x k j = 0"
        using z [of k j] True kj 2 by simp
      have j3: "j < w + 3" using kj 2 by (simp add: rbm_count_def)
      show ?thesis
        using kc jc el [OF kj(1) j3] zz
        by (elim disjE; simp add: rbm_entry_def Let_def d0 d1 2)
    qed
    then show ?thesis using that [of x'] res s 2 by (simp add: rbm_count_def)
  next
    case 3
    have p: "sized h (w + 6) x" "Suc node * 3 \<le> h" "node * 3 < length row"
      "0 \<le> row ! (node * 3)" "row ! (node * 3) sdiv 3 < nn" "nn * 3 \<le> int (length coords)"
      using x n r r0 co 3 by (simp_all add: rbm_count_def)
    from rbm_node_3 [OF p]
    obtain x' where res: "rbm_node 3 nn coords row w node x = Inr x'"
      and s: "sized h (w + 6) x'"
      and el: "\<And>k j. k < h \<Longrightarrow> j < w + 6 \<Longrightarrow> Elem x' k j =
       (if k = node * 3 \<and> j = w then 1
        else if k = node * 3 + 1 \<and> j = w + 1 then 1
        else if k = node * 3 + 2 \<and> j = w + 2 then 1
        else if k = node * 3 \<and> j = w + 3 then coords ! nat (nn + row ! (node * 3) sdiv 3)
        else if k = node * 3 + 1 \<and> j = w + 3 then - (coords ! nat (row ! (node * 3) sdiv 3))
        else if k = node * 3 \<and> j = w + 4 then 0
        else if k = node * 3 \<and> j = w + 5 then - (coords ! nat (nn * 2 + row ! (node * 3) sdiv 3))
        else if k = node * 3 + 1 \<and> j = w + 4 then coords ! nat (nn * 2 + row ! (node * 3) sdiv 3)
        else if k = node * 3 + 1 \<and> j = w + 5 then 0
        else if k = node * 3 + 2 \<and> j = w + 4 then - (coords ! nat (nn + row ! (node * 3) sdiv 3))
        else if k = node * 3 + 2 \<and> j = w + 5 then coords ! nat (row ! (node * 3) sdiv 3)
        else Elem x k j)"
      by blast
    have d0: "(node * 3) div 3 = node" "(node * 3) mod 3 = 0"
      and d1: "Suc (node * 3) div 3 = node" "Suc (node * 3) mod 3 = Suc 0"
      and d2: "Suc (Suc (node * 3)) div 3 = node" "Suc (Suc (node * 3)) mod 3 = Suc (Suc 0)"
      by presburger+
    have "Elem x' k j =
       (if node * nat sd \<le> k \<and> k < Suc node * nat sd \<and> w \<le> j
        then rbm_entry sd nn coords row k (j - w) else Elem x k j)"
      if kj: "k < h" "j < w + rbm_count sd" for k j
    proof (cases "node * 3 \<le> k \<and> k < Suc node * 3 \<and> w \<le> j")
      case False
      have j6: "j < w + 6" using kj 3 by (simp add: rbm_count_def)
      from False consider "k < node * 3" | "Suc node * 3 \<le> k" | "j < w" by linarith
      then have "Elem x' k j = Elem x k j"
        by cases (simp_all add: el [OF kj(1) j6])
      moreover have "\<not> (node * nat sd \<le> k \<and> k < Suc node * nat sd \<and> w \<le> j)"
        using False 3 by simp
      ultimately show ?thesis by (simp only: if_False)
    next
      case True
      then have kc: "k = node * 3 \<or> k = node * 3 + 1 \<or> k = node * 3 + 2" by auto
      have jc: "j = w \<or> j = w + 1 \<or> j = w + 2 \<or> j = w + 3 \<or> j = w + 4 \<or> j = w + 5"
        using True kj 3 by (auto simp: rbm_count_def)
      have zz: "Elem x k j = 0"
        using z [of k j] True kj 3 by simp
      have j6: "j < w + 6" using kj 3 by (simp add: rbm_count_def)
      show ?thesis
        using kc jc el [OF kj(1) j6] zz
        by (elim disjE; simp add: rbm_entry_def Let_def d0 d1 d2 3)
    qed
    then show ?thesis using that [of x'] res s 3 by (simp add: rbm_count_def)
  qed
qed

lemma rbm_nodes_sized:
  assumes sd: "sd = 1 \<or> sd = 2 \<or> sd = 3"
    and e1: "sized h (w + rbm_count sd) e1"
    and zero: "\<And>k j. k < h \<Longrightarrow> w \<le> j \<Longrightarrow> j < w + rbm_count sd \<Longrightarrow> Elem e1 k j = 0"
    and row: "h \<le> length row" and ok: "rbm_ok sd nn coords row h"
    and n: "n * nat sd \<le> h"
  obtains e' where "for_loop [0..<n] (rbm_node sd nn coords row w) e1 = Inr e'"
    "sized h (w + rbm_count sd) e'"
    "\<And>k j. k < h \<Longrightarrow> j < w + rbm_count sd \<Longrightarrow> Elem e' k j =
       (if w \<le> j \<and> k < n * nat sd then rbm_entry sd nn coords row k (j - w)
        else Elem e1 k j)"
proof -
  let ?s = "nat sd"
  let ?nw = "w + rbm_count sd"
  have s1: "1 \<le> ?s" using sd by auto
  let ?I = "\<lambda>i x. sized h ?nw x \<and> (\<forall>k j. k < h \<longrightarrow> j < ?nw \<longrightarrow> Elem x k j =
       (if w \<le> j \<and> k < i * ?s then rbm_entry sd nn coords row k (j - w) else Elem e1 k j))"
  have "\<exists>e'. for_loop [0..<n] (rbm_node sd nn coords row w) e1 = Inr e' \<and> ?I n e'"
  proof (rule for_loop_upt [where I = "?I"])
    show "?I 0 e1" using e1 by simp
  next
    fix i x
    assume i: "i < n" and I: "?I i x"
    from I have sx: "sized h ?nw x" by simp
    have "Suc i * ?s \<le> n * ?s" using i by (intro mult_le_mono1) simp
    then have b: "Suc i * ?s \<le> h" using n by simp
    have r: "i * ?s < length row" using b row s1 by simp
    have r0: "0 \<le> row ! (i * ?s)" "row ! (i * ?s) sdiv sd < nn"
      and co: "nn * sd \<le> int (length coords)"
      using ok b by (simp_all add: rbm_ok_def)
    have z: "Elem x k j = 0"
      if "i * ?s \<le> k" "k < Suc i * ?s" "w \<le> j" "j < ?nw" for k j
    proof -
      have kh: "k < h" using that(2) b by simp
      then have "Elem x k j = Elem e1 k j" using I that by simp
      then show ?thesis using zero [OF kh that(3,4)] by simp
    qed
    from rbm_node_entry [OF sd sx b r r0 co z]
    obtain x' where res: "rbm_node sd nn coords row w i x = Inr x'"
      and sx': "sized h ?nw x'"
      and el: "\<And>k j. k < h \<Longrightarrow> j < ?nw \<Longrightarrow> Elem x' k j =
         (if i * ?s \<le> k \<and> k < Suc i * ?s \<and> w \<le> j
          then rbm_entry sd nn coords row k (j - w) else Elem x k j)"
      by blast
    have "Elem x' k j =
       (if w \<le> j \<and> k < Suc i * ?s then rbm_entry sd nn coords row k (j - w)
        else Elem e1 k j)" if kj: "k < h" "j < ?nw" for k j
    proof (cases "i * ?s \<le> k \<and> k < Suc i * ?s \<and> w \<le> j")
      case True
      then show ?thesis using el [OF kj] by simp
    next
      case False
      have "Elem x' k j = Elem x k j" using el [OF kj] by (simp only: False if_False)
      also have "\<dots> = (if w \<le> j \<and> k < i * ?s then rbm_entry sd nn coords row k (j - w)
        else Elem e1 k j)" using I kj by simp
      also have "\<dots> = (if w \<le> j \<and> k < Suc i * ?s then rbm_entry sd nn coords row k (j - w)
        else Elem e1 k j)" using False by auto
      finally show ?thesis .
    qed
    then have "?I (Suc i) x'" using sx' by blast
    then show "\<exists>s'. rbm_node sd nn coords row w i x = Inr s' \<and> ?I (Suc i) s'"
      using res by blast
  qed
  then show thesis using that by blast
qed

lemma rbm_nodes_count:
  fixes msz sd :: int
  assumes "sd = 1 \<or> sd = 2 \<or> sd = 3" "0 \<le> msz" "msz mod sd = 0"
  shows "nat (msz div sd) * nat sd = nat msz"
proof -
  have sp: "0 < sd" using assms(1) by auto
  have a: "0 \<le> msz div sd" using assms(2) sp by (simp add: pos_imp_zdiv_nonneg_iff)
  have "sd dvd msz" using assms(3) by (rule mod_0_imp_dvd)
  then have m: "msz div sd * sd = msz" by (rule dvd_div_mult_self)
  have "int (nat (msz div sd) * nat sd) = msz div sd * sd"
    using a sp by simp
  then have "int (nat (msz div sd) * nat sd) = int (nat msz)"
    using m assms(2) by simp
  then show ?thesis by (simp only: of_nat_eq_iff)
qed

lemma rbm_mis_not_owned:
  "mis < length (mis_master rels) \<Longrightarrow> mis_master rels ! mis \<noteq> rank \<Longrightarrow>
   rbm_mis rank rels sd nn coords mis s = Inr s"
  by (simp add: rbm_mis_def nth_chk_def)

lemma rbm_mis_throws:
  assumes "mis < length (mis_master rels)" "mis_master rels ! mis = rank"
    "mis < length (mises_size rels)" "mis < length s"
    "0 \<le> mises_size rels ! mis" "s ! mis \<noteq> Some []"
    "Height (spectral rels s mis) = nat (mises_size rels ! mis)"
    "sd \<noteq> 1" "sd \<noteq> 2" "sd \<noteq> 3"
  shows "rbm_mis rank rels sd nn coords mis s = Inl (Thrown 1)"
  using assms slot_or_new_spectral [OF assms(5,6)]
  by (simp add: rbm_mis_def nth_chk_def)

lemma rbm_mis_owned:
  assumes b: "mis < length (mis_master rels)" "mis_master rels ! mis = rank"
    "mis < length (mises_size rels)" "mis < length s" "mis < length (mis_to_dof rels)"
    and msz: "0 \<le> mises_size rels ! mis" and slot: "s ! mis \<noteq> Some []"
    and l: "sized (nat (mises_size rels ! mis)) w (spectral rels s mis)"
    and row: "nat (mises_size rels ! mis) \<le> length (mis_to_dof rels ! mis)"
    and sd: "sd = 1 \<or> sd = 2 \<or> sd = 3"
    and md: "mises_size rels ! mis mod sd = 0"
    and ok: "rbm_ok sd nn coords (mis_to_dof rels ! mis) (nat (mises_size rels ! mis))"
  obtains ext where
    "rbm_mis rank rels sd nn coords mis s = Inr (s[mis := Some (ext # others s mis)])"
    "sized (nat (mises_size rels ! mis)) (w + rbm_count sd) ext"
    "\<And>k j. k < nat (mises_size rels ! mis) \<Longrightarrow> j < w + rbm_count sd \<Longrightarrow>
            Elem ext k j =
              (if j < w then Elem (spectral rels s mis) k j
               else rbm_entry sd nn coords (mis_to_dof rels ! mis) k (j - w))"
proof -
  let ?l = "spectral rels s mis"
  let ?h = "nat (mises_size rels ! mis)"
  let ?nw = "w + rbm_count sd"
  let ?row = "mis_to_dof rels ! mis"
  let ?n = "nat (mises_size rels ! mis div sd)"
  have hl: "Height ?l = ?h" and wl: "Width ?l = w" using l by (simp_all add: sized_def)
  have nwi: "(if sd = 1 then Inr (int w + 1)
              else if sd = 2 then Inr (int w + 3)
              else if sd = 3 then Inr (int w + 6) else Inl (Thrown 1))
             = (Inr (int ?nw) :: error + int)"
    using sd by (auto simp: rbm_count_def)
  from new_DenseMatrix_ok [of "int ?nw" ?h]
  obtain e0 where r0: "new_DenseMatrix ?h (int ?nw) = Inr e0" and s0: "sized ?h ?nw e0"
    and z0: "\<And>k j. k < ?h \<Longrightarrow> j < ?nw \<Longrightarrow> Elem e0 k j = 0"
    by (auto simp: sized_def)
  have wn: "w \<le> ?nw" by simp
  from rbm_copy_sized [OF l s0 wn]
  obtain e1 where r1: "for_loop [0..<?h] (copy_row ?l) e0 = Inr e1" and s1: "sized ?h ?nw e1"
    and el1: "\<And>k j. k < ?h \<Longrightarrow> j < ?nw \<Longrightarrow>
        Elem e1 k j = (if j < w then Elem ?l k j else Elem e0 k j)"
    by blast
  have zero: "Elem e1 k j = 0" if "k < ?h" "w \<le> j" "j < ?nw" for k j
    using el1 [OF that(1,3)] z0 [OF that(1,3)] that(2) by simp
  have n: "?n * nat sd \<le> ?h"
    using rbm_nodes_count [OF sd msz md] by simp
  from rbm_nodes_sized [OF sd s1 zero row ok n]
  obtain ext where r2: "for_loop [0..<?n] (rbm_node sd nn coords ?row w) e1 = Inr ext"
    and s2: "sized ?h ?nw ext"
    and el2: "\<And>k j. k < ?h \<Longrightarrow> j < ?nw \<Longrightarrow> Elem ext k j =
       (if w \<le> j \<and> k < ?n * nat sd then rbm_entry sd nn coords ?row k (j - w)
        else Elem e1 k j)"
    by blast
  have hint: "int (Height ?l) = mises_size rels ! mis" using hl msz by simp
  have res: "rbm_mis rank rels sd nn coords mis s = Inr (s[mis := Some (ext # others s mis)])"
    unfolding rbm_mis_def
    by (simp only: nth_chk_def b if_True then_do.simps slot_or_new_spectral [OF msz slot]
        list.case hint simp_thms if_False Let_def wl nwi nat_int hl [symmetric] md
        r0 [unfolded hl [symmetric]] r1 [unfolded hl [symmetric]] r2)
  have "Elem ext k j = (if j < w then Elem ?l k j else rbm_entry sd nn coords ?row k (j - w))"
    if kj: "k < ?h" "j < ?nw" for k j
    using el2 [OF kj] el1 [OF kj] kj rbm_nodes_count [OF sd msz md] by auto
  then show thesis using that [OF res s2] by blast
qed

text \<open>
  C5. Let the arrays be complete and the slot of every owned MIS be null or start with a
  contribution matrix of \<^verbatim>\<open>mis_size\<close> rows and width \<open>w\<close>, with \<^verbatim>\<open>mis_size\<close> a multiple
  of the spatial dimension, node numbers below \<^verbatim>\<open>num_nodes\<close> and \<open>coords\<close> holding a block
  of \<^verbatim>\<open>num_nodes\<close> coordinates per dimension. In dimension 1, 2 or 3
  \<^verbatim>\<open>ExtendWithRBMs\<close> returns, and for every owned MIS the new matrix keeps the old columns
  and appends 1, 3 or 6 columns: the translations and the rotations of \<open>rbm_entry\<close>. In
  2-D the rows \<open>2i\<close> and \<open>2i + 1\<close> of node \<open>i\<close> carry \<open>(1, 0)\<close> and \<open>(0, 1)\<close> in the two
  translation columns and \<open>(y\<^sub>i, -x\<^sub>i)\<close> in the rotation column. In any other dimension,
  with at least one owned MIS, it throws 1.
\<close>

theorem ExtendWithRBMs_columns:
  assumes ok: "slots_ok rank rels rm"
  shows "((sd = 1 \<or> sd = 2 \<or> sd = 3) \<and>
            (\<forall>mis. owned rank rels mis \<longrightarrow>
               mises_size rels ! mis mod sd = 0 \<and>
               rbm_ok sd nn coords (mis_to_dof rels ! mis) (nat (mises_size rels ! mis)))
          \<longrightarrow>
          (\<exists>rm'. ExtendWithRBMs rank rm rels sd nn coords = Inr rm' \<and>
             length rm' = length rm \<and>
             (\<forall>mis. owned rank rels mis \<longrightarrow>
                (\<exists>ext. rm' ! mis = Some (ext # others rm mis) \<and>
                   sized (Height (spectral rels rm mis))
                     (Width (spectral rels rm mis) + rbm_count sd) ext \<and>
                   (\<forall>k<Height (spectral rels rm mis).
                      (\<forall>j<Width (spectral rels rm mis).
                         Elem ext k j = Elem (spectral rels rm mis) k j) \<and>
                      (\<forall>q<rbm_count sd. Elem ext k (Width (spectral rels rm mis) + q) =
                         rbm_entry sd nn coords (mis_to_dof rels ! mis) k q)) \<and>
                   (sd = 2 \<longrightarrow>
                     (\<forall>i. 2 * i + 1 < Height (spectral rels rm mis) \<longrightarrow>
                        Elem ext (2 * i) (Width (spectral rels rm mis)) = 1 \<and>
                        Elem ext (2 * i + 1) (Width (spectral rels rm mis)) = 0 \<and>
                        Elem ext (2 * i) (Width (spectral rels rm mis) + 1) = 0 \<and>
                        Elem ext (2 * i + 1) (Width (spectral rels rm mis) + 1) = 1 \<and>
                        Elem ext (2 * i) (Width (spectral rels rm mis) + 2) =
                          coords ! nat (nn + mis_to_dof rels ! mis ! (2 * i) sdiv 2) \<and>
                        Elem ext (2 * i + 1) (Width (spectral rels rm mis) + 2) =
                          - (coords ! nat (mis_to_dof rels ! mis ! (2 * i) sdiv 2)))))))) \<and>
         (sd \<noteq> 1 \<and> sd \<noteq> 2 \<and> sd \<noteq> 3 \<and> (\<exists>mis. owned rank rels mis) \<longrightarrow>
          ExtendWithRBMs rank rm rels sd nn coords = Inl (Thrown 1)) \<and>
         rbm_count 1 = 1 \<and> rbm_count 2 = 3 \<and> rbm_count 3 = 6"
proof (intro conjI impI)
  let ?n = "nat (num_mises rels)"
  let ?body = "rbm_mis rank rels sd nn coords"
  from ok have lens: "?n \<le> length (mis_master rels)" "?n \<le> length (mises_size rels)"
    "?n \<le> length (mis_to_dof rels)" "?n \<le> length rm"
    by (simp_all add: slots_ok_def)
  have own: "0 \<le> mises_size rels ! mis \<and> rm ! mis \<noteq> Some [] \<and>
        sized (nat (mises_size rels ! mis)) (Width (spectral rels rm mis)) (spectral rels rm mis) \<and>
        nat (mises_size rels ! mis) \<le> length (mis_to_dof rels ! mis)"
    if "owned rank rels mis" for mis
    using ok that by (simp add: slots_ok_def)
  show "rbm_count 1 = 1" "rbm_count 2 = 3" "rbm_count 3 = 6"
    by (simp_all add: rbm_count_def)
  {
    assume o: "(sd = 1 \<or> sd = 2 \<or> sd = 3) \<and>
            (\<forall>mis. owned rank rels mis \<longrightarrow>
               mises_size rels ! mis mod sd = 0 \<and>
               rbm_ok sd nn coords (mis_to_dof rels ! mis) (nat (mises_size rels ! mis)))"
    then have sd: "sd = 1 \<or> sd = 2 \<or> sd = 3" by blast
    let ?Q = "\<lambda>mis x. \<exists>ext. x = Some (ext # others rm mis) \<and>
         sized (nat (mises_size rels ! mis)) (Width (spectral rels rm mis) + rbm_count sd) ext \<and>
         (\<forall>k j. k < nat (mises_size rels ! mis) \<longrightarrow>
            j < Width (spectral rels rm mis) + rbm_count sd \<longrightarrow>
            Elem ext k j =
              (if j < Width (spectral rels rm mis) then Elem (spectral rels rm mis) k j
               else rbm_entry sd nn coords (mis_to_dof rels ! mis) k
                      (j - Width (spectral rels rm mis))))"
    have "\<exists>rm'. for_loop [0..<?n] ?body rm = Inr rm' \<and> length rm' = length rm \<and>
           (\<forall>m<length rm. if m < ?n \<and> mis_master rels ! m = rank then ?Q m (rm' ! m)
                            else rm' ! m = rm ! m)"
    proof (rule mis_loop [OF lens(4), where Q = "?Q"])
      fix k s
      assume k: "k < ?n" and ls: "length s = length rm" and sk: "s ! k = rm ! k"
      show "(\<not> mis_master rels ! k = rank \<and> ?body k s = Inr s) \<or>
            (mis_master rels ! k = rank \<and> (\<exists>x. ?body k s = Inr (s[k := x]) \<and> ?Q k x))"
      proof (cases "mis_master rels ! k = rank")
        case False
        then show ?thesis using rbm_mis_not_owned [of k rels rank] k lens(1) by simp
      next
        case True
        then have ow: "owned rank rels k" using k by (simp add: owned_def)
        note sp = spectral_cong [OF sk, of rels] and ot = others_cong [OF sk]
        have b: "k < length (mis_master rels)" "mis_master rels ! k = rank"
          "k < length (mises_size rels)" "k < length s" "k < length (mis_to_dof rels)"
          using k lens ls True by simp_all
        have slot: "s ! k \<noteq> Some []" using own [OF ow] sk by simp
        have l: "sized (nat (mises_size rels ! k)) (Width (spectral rels rm k)) (spectral rels s k)"
          using own [OF ow] sp by simp
        from o ow have md: "mises_size rels ! k mod sd = 0"
          and rk: "rbm_ok sd nn coords (mis_to_dof rels ! k) (nat (mises_size rels ! k))"
          by blast+
        from own [OF ow] have msz: "0 \<le> mises_size rels ! k"
          and row: "nat (mises_size rels ! k) \<le> length (mis_to_dof rels ! k)" by simp_all
        from rbm_mis_owned [OF b msz slot l row sd md rk]
        obtain ext where "?body k s = Inr (s[k := Some (ext # others s k)])"
          "sized (nat (mises_size rels ! k)) (Width (spectral rels rm k) + rbm_count sd) ext"
          "\<And>i j. i < nat (mises_size rels ! k) \<Longrightarrow>
            j < Width (spectral rels rm k) + rbm_count sd \<Longrightarrow>
            Elem ext i j =
              (if j < Width (spectral rels rm k) then Elem (spectral rels s k) i j
               else rbm_entry sd nn coords (mis_to_dof rels ! k) i
                      (j - Width (spectral rels rm k)))"
          by blast
        then have "?body k s = Inr (s[k := Some (ext # others rm k)]) \<and>
            ?Q k (Some (ext # others rm k))"
          unfolding sp ot by simp
        then show ?thesis using True by blast
      qed
    qed
    then obtain rm' where r0: "for_loop [0..<?n] ?body rm = Inr rm'"
      and lr: "length rm' = length rm"
      and q0: "\<forall>m<length rm. if m < ?n \<and> mis_master rels ! m = rank then ?Q m (rm' ! m)
                            else rm' ! m = rm ! m"
      by blast
    have r: "ExtendWithRBMs rank rm rels sd nn coords = Inr rm'"
      unfolding ExtendWithRBMs_def by (rule r0)
    have q: "?Q m (rm' ! m)"
      if "m < length rm" "m < ?n" "mis_master rels ! m = rank" for m
    proof -
      from q0 that(1)
      have "if m < ?n \<and> mis_master rels ! m = rank then ?Q m (rm' ! m)
            else rm' ! m = rm ! m" by blast
      with that(2,3) show ?thesis by (simp only: simp_thms if_True)
    qed
    have "\<exists>ext. rm' ! mis = Some (ext # others rm mis) \<and>
                   sized (Height (spectral rels rm mis))
                     (Width (spectral rels rm mis) + rbm_count sd) ext \<and>
                   (\<forall>k<Height (spectral rels rm mis).
                      (\<forall>j<Width (spectral rels rm mis).
                         Elem ext k j = Elem (spectral rels rm mis) k j) \<and>
                      (\<forall>q<rbm_count sd. Elem ext k (Width (spectral rels rm mis) + q) =
                         rbm_entry sd nn coords (mis_to_dof rels ! mis) k q)) \<and>
                   (sd = 2 \<longrightarrow>
                     (\<forall>i. 2 * i + 1 < Height (spectral rels rm mis) \<longrightarrow>
                        Elem ext (2 * i) (Width (spectral rels rm mis)) = 1 \<and>
                        Elem ext (2 * i + 1) (Width (spectral rels rm mis)) = 0 \<and>
                        Elem ext (2 * i) (Width (spectral rels rm mis) + 1) = 0 \<and>
                        Elem ext (2 * i + 1) (Width (spectral rels rm mis) + 1) = 1 \<and>
                        Elem ext (2 * i) (Width (spectral rels rm mis) + 2) =
                          coords ! nat (nn + mis_to_dof rels ! mis ! (2 * i) sdiv 2) \<and>
                        Elem ext (2 * i + 1) (Width (spectral rels rm mis) + 2) =
                          - (coords ! nat (mis_to_dof rels ! mis ! (2 * i) sdiv 2))))"
      if ow: "owned rank rels mis" for mis
    proof -
      let ?W = "Width (spectral rels rm mis)"
      let ?row = "mis_to_dof rels ! mis"
      have m: "mis < ?n" "mis_master rels ! mis = rank" using ow by (simp_all add: owned_def)
      then have ml: "mis < length rm" using lens(4) by simp
      from q [OF ml m] obtain ext where e: "rm' ! mis = Some (ext # others rm mis)"
        and s: "sized (nat (mises_size rels ! mis)) (?W + rbm_count sd) ext"
        and el: "\<And>k j. k < nat (mises_size rels ! mis) \<Longrightarrow> j < ?W + rbm_count sd \<Longrightarrow>
            Elem ext k j =
              (if j < ?W then Elem (spectral rels rm mis) k j
               else rbm_entry sd nn coords ?row k (j - ?W))"
        by blast
      have h: "Height (spectral rels rm mis) = nat (mises_size rels ! mis)"
        using own [OF ow] by (simp add: sized_def)
      have app: "Elem ext k (?W + q) = rbm_entry sd nn coords ?row k q"
        if "k < Height (spectral rels rm mis)" "q < rbm_count sd" for k q
        using el [of k "?W + q"] that h by simp
      have old: "Elem ext k j = Elem (spectral rels rm mis) k j"
        if "k < Height (spectral rels rm mis)" "j < ?W" for k j
        using el [of k j] that h by simp
      have two: "Elem ext (2 * i) ?W = 1 \<and> Elem ext (2 * i + 1) ?W = 0 \<and>
                 Elem ext (2 * i) (?W + 1) = 0 \<and> Elem ext (2 * i + 1) (?W + 1) = 1 \<and>
                 Elem ext (2 * i) (?W + 2) = coords ! nat (nn + ?row ! (2 * i) sdiv 2) \<and>
                 Elem ext (2 * i + 1) (?W + 2) = - (coords ! nat (?row ! (2 * i) sdiv 2))"
        if s2: "sd = 2" and i: "2 * i + 1 < Height (spectral rels rm mis)" for i
      proof -
        have k0: "2 * i < Height (spectral rels rm mis)" using i by simp
        have c: "(0 :: nat) < rbm_count sd" "1 < rbm_count sd" "2 < rbm_count sd"
          using s2 by (simp_all add: rbm_count_def)
        have d: "(2 * i) div 2 = i" "(2 * i) mod 2 = 0" "Suc (2 * i) div 2 = i"
          "Suc (2 * i) mod 2 = Suc 0" "i * 2 = 2 * i"
          by presburger+
        show ?thesis
          using app [OF k0 c(1)] app [OF k0 c(2)] app [OF k0 c(3)]
            app [OF i c(1)] app [OF i c(2)] app [OF i c(3)]
          by (simp add: rbm_entry_def Let_def s2 d)
      qed
      show ?thesis
        using e s [folded h] app old two by (intro exI [of _ ext]) blast
    qed
    with r lr show "\<exists>rm'. ExtendWithRBMs rank rm rels sd nn coords = Inr rm' \<and>
             length rm' = length rm \<and>
             (\<forall>mis. owned rank rels mis \<longrightarrow>
                (\<exists>ext. rm' ! mis = Some (ext # others rm mis) \<and>
                   sized (Height (spectral rels rm mis))
                     (Width (spectral rels rm mis) + rbm_count sd) ext \<and>
                   (\<forall>k<Height (spectral rels rm mis).
                      (\<forall>j<Width (spectral rels rm mis).
                         Elem ext k j = Elem (spectral rels rm mis) k j) \<and>
                      (\<forall>q<rbm_count sd. Elem ext k (Width (spectral rels rm mis) + q) =
                         rbm_entry sd nn coords (mis_to_dof rels ! mis) k q)) \<and>
                   (sd = 2 \<longrightarrow>
                     (\<forall>i. 2 * i + 1 < Height (spectral rels rm mis) \<longrightarrow>
                        Elem ext (2 * i) (Width (spectral rels rm mis)) = 1 \<and>
                        Elem ext (2 * i + 1) (Width (spectral rels rm mis)) = 0 \<and>
                        Elem ext (2 * i) (Width (spectral rels rm mis) + 1) = 0 \<and>
                        Elem ext (2 * i + 1) (Width (spectral rels rm mis) + 1) = 1 \<and>
                        Elem ext (2 * i) (Width (spectral rels rm mis) + 2) =
                          coords ! nat (nn + mis_to_dof rels ! mis ! (2 * i) sdiv 2) \<and>
                        Elem ext (2 * i + 1) (Width (spectral rels rm mis) + 2) =
                          - (coords ! nat (mis_to_dof rels ! mis ! (2 * i) sdiv 2))))))"
      by blast
  }
  {
    assume t: "sd \<noteq> 1 \<and> sd \<noteq> 2 \<and> sd \<noteq> 3 \<and> (\<exists>mis. owned rank rels mis)"
    have each: "?body k rm = Inr rm \<or> ?body k rm = Inl (Thrown 1)" if "k \<in> set [0..<?n]" for k
    proof (cases "mis_master rels ! k = rank")
      case False
      then show ?thesis using rbm_mis_not_owned [of k rels rank] that lens(1) by simp
    next
      case True
      then have ow: "owned rank rels k" using that by (simp add: owned_def)
      have "?body k rm = Inl (Thrown 1)"
        using rbm_mis_throws [of k rels rank rm sd nn coords] own [OF ow] that lens True t
        by (simp add: sized_def)
      then show ?thesis by simp
    qed
    from t obtain mis where ow: "owned rank rels mis" by blast
    then have mn: "mis \<in> set [0..<?n]" and mo: "mis_master rels ! mis = rank"
      by (simp_all add: owned_def)
    have "?body mis rm = Inl (Thrown 1)"
      using rbm_mis_throws [of mis rels rank rm sd nn coords] own [OF ow] mn lens mo t
      by (simp add: sized_def)
    with mn have "\<exists>k\<in>set [0..<?n]. ?body k rm = Inl (Thrown 1)" by blast
    with each show "ExtendWithRBMs rank rm rels sd nn coords = Inl (Thrown 1)"
      unfolding ExtendWithRBMs_def by (intro for_loop_abort) blast+
  }
qed

theorem ExtendWithRBMs_columns_witness:
  "(\<exists>rm' ext. ExtendWithRBMs 0 [Some [\<lparr>Height = 4, Cols = [[7, 8, 9, 10]]\<rparr>]]
       \<lparr>num_mises = 1, mis_master = [0], mises_size = [4],
        mis_to_dof = [[0, 1, 2, 3]], ess_bdr = (\<lambda>d. False)\<rparr>
       2 2 [10, 11, 20, 21] = Inr rm' \<and>
     rm' ! 0 = Some [ext] \<and> sized 4 4 ext \<and>
     Elem ext 0 1 = 1 \<and> Elem ext 1 1 = 0 \<and> Elem ext 0 2 = 0 \<and> Elem ext 1 2 = 1 \<and>
     Elem ext 0 3 = 20 \<and> Elem ext 1 3 = - 10 \<and>
     Elem ext 2 1 = 1 \<and> Elem ext 3 1 = 0 \<and> Elem ext 2 2 = 0 \<and> Elem ext 3 2 = 1 \<and>
     Elem ext 2 3 = 21 \<and> Elem ext 3 3 = - 11) \<and>
   ExtendWithRBMs 0 [Some [\<lparr>Height = 4, Cols = [[7, 8, 9, 10]]\<rparr>]]
       \<lparr>num_mises = 1, mis_master = [0], mises_size = [4],
        mis_to_dof = [[0, 1, 2, 3]], ess_bdr = (\<lambda>d. False)\<rparr>
       4 2 [10, 11, 20, 21] = Inl (Thrown 1)"
proof -
  let ?rm = "[Some [\<lparr>Height = 4, Cols = [[7, 8, 9, 10]]\<rparr>]]"
  let ?R = "\<lparr>num_mises = 1, mis_master = [0], mises_size = [4],
        mis_to_dof = [[0, 1, 2, 3]], ess_bdr = (\<lambda>d :: int. False)\<rparr>"
  let ?co = "[10, 11, 20, 21] :: real list"
  have own: "owned 0 ?R mis \<longleftrightarrow> mis = 0" for mis
    by (auto simp: owned_def)
  have sp: "spectral ?R ?rm 0 = \<lparr>Height = 4, Cols = [[7, 8, 9, 10]]\<rparr>"
    and ot: "others ?rm 0 = []"
    by (simp_all add: spectral_def others_def)
  have ok: "slots_ok 0 ?R ?rm"
    by (simp add: slots_ok_def own sp sized_def Width_def wf_mat_def)
  have rb: "rbm_ok 2 2 ?co [0, 1, 2, 3] 4"
    unfolding rbm_ok_def
  proof (intro conjI allI impI)
    show "(2 :: int) * 2 \<le> int (length ?co)" by simp
  next
    fix node :: nat
    assume "Suc node * nat 2 \<le> 4"
    then have "node = 0 \<or> node = 1" by auto
    then show "0 \<le> [0, 1, 2, 3 :: int] ! (node * nat 2)" by auto
  next
    fix node :: nat
    assume "Suc node * nat 2 \<le> 4"
    then have "node = 0 \<or> node = 1" by auto
    then show "[0, 1, 2, 3 :: int] ! (node * nat 2) sdiv 2 < 2"
      by (auto simp: signed_divide_int_def)
  qed
  have pre: "((2 :: int) = 1 \<or> (2 :: int) = 2 \<or> (2 :: int) = 3) \<and>
       (\<forall>mis. owned 0 ?R mis \<longrightarrow> mises_size ?R ! mis mod 2 = 0 \<and>
          rbm_ok 2 2 ?co (mis_to_dof ?R ! mis) (nat (mises_size ?R ! mis)))"
    using rb by (simp add: own)
  note inst = ExtendWithRBMs_columns [OF ok]
  from inst [of 2 2 ?co, THEN conjunct1, rule_format, OF pre]
  obtain rm' where r: "ExtendWithRBMs 0 ?rm ?R 2 2 ?co = Inr rm'"
    and q: "\<forall>mis. owned 0 ?R mis \<longrightarrow>
                (\<exists>ext. rm' ! mis = Some (ext # others ?rm mis) \<and>
                   sized (Height (spectral ?R ?rm mis))
                     (Width (spectral ?R ?rm mis) + rbm_count 2) ext \<and>
                   (\<forall>k<Height (spectral ?R ?rm mis).
                      (\<forall>j<Width (spectral ?R ?rm mis).
                         Elem ext k j = Elem (spectral ?R ?rm mis) k j) \<and>
                      (\<forall>q<rbm_count 2. Elem ext k (Width (spectral ?R ?rm mis) + q) =
                         rbm_entry 2 2 ?co (mis_to_dof ?R ! mis) k q)) \<and>
                   ((2 :: int) = 2 \<longrightarrow>
                     (\<forall>i. 2 * i + 1 < Height (spectral ?R ?rm mis) \<longrightarrow>
                        Elem ext (2 * i) (Width (spectral ?R ?rm mis)) = 1 \<and>
                        Elem ext (2 * i + 1) (Width (spectral ?R ?rm mis)) = 0 \<and>
                        Elem ext (2 * i) (Width (spectral ?R ?rm mis) + 1) = 0 \<and>
                        Elem ext (2 * i + 1) (Width (spectral ?R ?rm mis) + 1) = 1 \<and>
                        Elem ext (2 * i) (Width (spectral ?R ?rm mis) + 2) =
                          ?co ! nat (2 + mis_to_dof ?R ! mis ! (2 * i) sdiv 2) \<and>
                        Elem ext (2 * i + 1) (Width (spectral ?R ?rm mis) + 2) =
                          - (?co ! nat (mis_to_dof ?R ! mis ! (2 * i) sdiv 2)))))"
    by blast
  from q own [of 0]
  obtain ext where e0: "rm' ! 0 = Some (ext # others ?rm 0)"
    and s0: "sized (Height (spectral ?R ?rm 0)) (Width (spectral ?R ?rm 0) + rbm_count 2) ext"
    and two: "(2 :: int) = 2 \<longrightarrow>
                     (\<forall>i. 2 * i + 1 < Height (spectral ?R ?rm 0) \<longrightarrow>
                        Elem ext (2 * i) (Width (spectral ?R ?rm 0)) = 1 \<and>
                        Elem ext (2 * i + 1) (Width (spectral ?R ?rm 0)) = 0 \<and>
                        Elem ext (2 * i) (Width (spectral ?R ?rm 0) + 1) = 0 \<and>
                        Elem ext (2 * i + 1) (Width (spectral ?R ?rm 0) + 1) = 1 \<and>
                        Elem ext (2 * i) (Width (spectral ?R ?rm 0) + 2) =
                          ?co ! nat (2 + mis_to_dof ?R ! 0 ! (2 * i) sdiv 2) \<and>
                        Elem ext (2 * i + 1) (Width (spectral ?R ?rm 0) + 2) =
                          - (?co ! nat (mis_to_dof ?R ! 0 ! (2 * i) sdiv 2)))"
    by blast
  have e: "rm' ! 0 = Some [ext]" using e0 by (simp add: ot)
  have w4: "Width (spectral ?R ?rm 0) + rbm_count 2 = 4"
    and h4: "Height (spectral ?R ?rm 0) = 4"
    by (simp_all add: sp Width_def rbm_count_def)
  have s: "sized 4 4 ext" using s0 unfolding w4 h4 .
  have i0: "2 * 0 + 1 < Height (spectral ?R ?rm 0)" and i1: "2 * 1 + 1 < Height (spectral ?R ?rm 0)"
    by (simp_all add: sp)
  have n0: "Elem ext 0 (Suc 0) = 1 \<and> Elem ext (Suc 0) (Suc 0) = 0 \<and>
      Elem ext 0 (Suc (Suc 0)) = 0 \<and> Elem ext (Suc 0) (Suc (Suc 0)) = 1 \<and>
      Elem ext 0 (Suc (Suc (Suc 0))) = 20 \<and> Elem ext (Suc 0) (Suc (Suc (Suc 0))) = - 10"
    using two [rule_format, OF refl i0]
    by (simp add: sp Width_def signed_divide_int_def)
  have n1: "Elem ext 2 (Suc 0) = 1 \<and> Elem ext 3 (Suc 0) = 0 \<and>
      Elem ext 2 (Suc (Suc 0)) = 0 \<and> Elem ext 3 (Suc (Suc 0)) = 1 \<and>
      Elem ext 2 (Suc (Suc (Suc 0))) = 21 \<and> Elem ext 3 (Suc (Suc (Suc 0))) = - 11"
    using two [rule_format, OF refl i1]
    by (simp add: sp Width_def signed_divide_int_def)
  have "Elem ext 0 1 = 1 \<and> Elem ext 1 1 = 0 \<and> Elem ext 0 2 = 0 \<and> Elem ext 1 2 = 1 \<and>
     Elem ext 0 3 = 20 \<and> Elem ext 1 3 = - 10 \<and>
     Elem ext 2 1 = 1 \<and> Elem ext 3 1 = 0 \<and> Elem ext 2 2 = 0 \<and> Elem ext 3 2 = 1 \<and>
     Elem ext 2 3 = 21 \<and> Elem ext 3 3 = - 11"
    using n0 n1 by (simp add: numeral_2_eq_2 numeral_3_eq_3)
  with r e s have first: "\<exists>rm' ext. ExtendWithRBMs 0 ?rm ?R 2 2 ?co = Inr rm' \<and>
     rm' ! 0 = Some [ext] \<and> sized 4 4 ext \<and>
     Elem ext 0 1 = 1 \<and> Elem ext 1 1 = 0 \<and> Elem ext 0 2 = 0 \<and> Elem ext 1 2 = 1 \<and>
     Elem ext 0 3 = 20 \<and> Elem ext 1 3 = - 10 \<and>
     Elem ext 2 1 = 1 \<and> Elem ext 3 1 = 0 \<and> Elem ext 2 2 = 0 \<and> Elem ext 3 2 = 1 \<and>
     Elem ext 2 3 = 21 \<and> Elem ext 3 3 = - 11"
    by blast
  have "(4 :: int) \<noteq> 1 \<and> (4 :: int) \<noteq> 2 \<and> (4 :: int) \<noteq> 3 \<and> (\<exists>mis. owned 0 ?R mis)"
    using own by simp
  from inst [of 4 2 ?co, THEN conjunct2, THEN conjunct1, rule_format, OF this]
  have second: "ExtendWithRBMs 0 ?rm ?R 4 2 ?co = Inl (Thrown 1)" .
  from first second show ?thesis by blast
qed

subsection \<open>What the extensions leave alone\<close>

lemma then_doE:
  assumes "then_do m f = Inr y"
  obtains x where "m = Inr x" "f x = Inr y"
  using assms by (cases m) auto

lemma poly_mis_frame:
  assumes "poly_mis rank rels order sd nn coords mis s = Inr s'"
  shows "length s' = length s \<and>
         (\<forall>m. m \<noteq> mis \<or> mis_master rels ! mis \<noteq> rank \<longrightarrow> s' ! m = s ! m)"
  using assms unfolding poly_mis_def
  by (auto elim!: then_doE simp: nth_chk_def Let_def split: if_splits list.splits)

lemma rbm_mis_frame:
  assumes "rbm_mis rank rels sd nn coords mis s = Inr s'"
  shows "length s' = length s \<and>
         (\<forall>m. m \<noteq> mis \<or> mis_master rels ! mis \<noteq> rank \<longrightarrow> s' ! m = s ! m)"
  using assms unfolding rbm_mis_def
  by (auto elim!: then_doE simp: nth_chk_def Let_def split: if_splits list.splits)

lemma mis_loop_frame:
  fixes body :: "nat \<Rightarrow> received_mats_t \<Rightarrow> error + received_mats_t"
  assumes run: "for_loop [0..<nat (num_mises rels)] body rm = Inr rm'"
    and step: "\<And>k s s'. body k s = Inr s' \<Longrightarrow>
                 length s' = length s \<and>
                 (\<forall>m. m \<noteq> k \<or> mis_master rels ! k \<noteq> rank \<longrightarrow> s' ! m = s ! m)"
  shows "length rm' = length rm \<and>
         (\<forall>mis<length rm. \<not> owned rank rels mis \<longrightarrow> rm' ! mis = rm ! mis)"
proof (rule for_loop_preserves [OF run])
  show "length rm = length rm \<and>
         (\<forall>mis<length rm. \<not> owned rank rels mis \<longrightarrow> rm ! mis = rm ! mis)" by simp
next
  fix k s s'
  assume k: "k \<in> set [0..<nat (num_mises rels)]"
    and I: "length s = length rm \<and>
         (\<forall>mis<length rm. \<not> owned rank rels mis \<longrightarrow> s ! mis = rm ! mis)"
    and b: "body k s = Inr s'"
  note st = step [OF b]
  have "s' ! mis = rm ! mis" if m: "mis < length rm" and no: "\<not> owned rank rels mis" for mis
  proof -
    have "mis \<noteq> k \<or> mis_master rels ! k \<noteq> rank"
      using no k by (auto simp: owned_def)
    then have "s' ! mis = s ! mis" using st by blast
    then show ?thesis using I m no by simp
  qed
  then show "length s' = length rm \<and>
         (\<forall>mis<length rm. \<not> owned rank rels mis \<longrightarrow> s' ! mis = rm ! mis)"
    using st I by simp
qed

text \<open>
  C10. When \<^verbatim>\<open>ExtendWithPolynomials\<close> or \<^verbatim>\<open>ExtendWithRBMs\<close> returns, the array of slots
  has its old length and the slot of every MIS that the calling rank does not own is what
  it was: a null slot is still null, a matrix has its old width.
\<close>

theorem extensions_frame:
  "(ExtendWithPolynomials rank rm rels order sd nn coords = Inr rm' \<longrightarrow>
      length rm' = length rm \<and>
      (\<forall>mis<length rm. \<not> owned rank rels mis \<longrightarrow> rm' ! mis = rm ! mis)) \<and>
   (ExtendWithRBMs rank rm rels sd nn coords = Inr rm'' \<longrightarrow>
      length rm'' = length rm \<and>
      (\<forall>mis<length rm. \<not> owned rank rels mis \<longrightarrow> rm'' ! mis = rm ! mis))"
proof (intro conjI impI)
  assume "ExtendWithPolynomials rank rm rels order sd nn coords = Inr rm'"
  then have run: "for_loop [0..<nat (num_mises rels)]
      (poly_mis rank rels order sd nn coords) rm = Inr rm'"
    by (simp add: ExtendWithPolynomials_def)
  have "length rm' = length rm \<and>
      (\<forall>mis<length rm. \<not> owned rank rels mis \<longrightarrow> rm' ! mis = rm ! mis)"
    by (rule mis_loop_frame [OF run]) (rule poly_mis_frame)
  then show "length rm' = length rm"
    "\<forall>mis<length rm. \<not> owned rank rels mis \<longrightarrow> rm' ! mis = rm ! mis"
    by blast+
next
  assume "ExtendWithRBMs rank rm rels sd nn coords = Inr rm''"
  then have run: "for_loop [0..<nat (num_mises rels)]
      (rbm_mis rank rels sd nn coords) rm = Inr rm''"
    by (simp add: ExtendWithRBMs_def)
  have "length rm'' = length rm \<and>
      (\<forall>mis<length rm. \<not> owned rank rels mis \<longrightarrow> rm'' ! mis = rm ! mis)"
    by (rule mis_loop_frame [OF run]) (rule rbm_mis_frame)
  then show "length rm'' = length rm"
    "\<forall>mis<length rm. \<not> owned rank rels mis \<longrightarrow> rm'' ! mis = rm ! mis"
    by blast+
qed

theorem extensions_frame_witness:
  "\<exists>rm' rm''.
     ExtendWithPolynomials 0 [None, Some [\<lparr>Height = 1, Cols = [[3]]\<rparr>], None]
       \<lparr>num_mises = 3, mis_master = [0, 1, 1], mises_size = [2, 1, 1],
        mis_to_dof = [[0, 1], [2], [3]], ess_bdr = (\<lambda>d. False)\<rparr> 0 1 4 [] = Inr rm' \<and>
     rm' ! 0 = Some [\<lparr>Height = 2, Cols = [[1, 1]]\<rparr>] \<and>
     rm' ! 1 = Some [\<lparr>Height = 1, Cols = [[3]]\<rparr>] \<and> rm' ! 2 = None \<and>
     ExtendWithRBMs 0 [None, Some [\<lparr>Height = 1, Cols = [[3]]\<rparr>], None]
       \<lparr>num_mises = 3, mis_master = [0, 1, 1], mises_size = [2, 1, 1],
        mis_to_dof = [[0, 1], [2], [3]], ess_bdr = (\<lambda>d. False)\<rparr> 1 4 [] = Inr rm'' \<and>
     rm'' ! 0 = Some [\<lparr>Height = 2, Cols = [[1, 1]]\<rparr>] \<and>
     rm'' ! 1 = Some [\<lparr>Height = 1, Cols = [[3]]\<rparr>] \<and> rm'' ! 2 = None"
proof -
  let ?rm = "[None, Some [\<lparr>Height = 1, Cols = [[3]]\<rparr>], None]"
  let ?R = "\<lparr>num_mises = 3, mis_master = [0, 1, 1], mises_size = [2, 1, 1],
        mis_to_dof = [[0, 1], [2], [3]], ess_bdr = (\<lambda>d :: int. False)\<rparr>"
  let ?out = "[Some [\<lparr>Height = 2, Cols = [[1, 1]]\<rparr>], Some [\<lparr>Height = 1, Cols = [[3]]\<rparr>], None]"
  have u: "[0..<3] = [0, 1, 2]" "[0..<2] = [0, 1]" "[0..<1] = [0]"
    by (simp_all add: upt_rec)
  have rep: "replicate 2 (0 :: real) = [0, 0]" "replicate 2 ([] :: real list) = [[], []]"
    by (simp_all add: numeral_2_eq_2)
  have p: "ExtendWithPolynomials 0 ?rm ?R 0 1 4 [] = Inr ?out"
    by (simp add: ExtendWithPolynomials_def poly_mis_def poly_row_def copy_row_def
        nth_chk_def slot_or_new_def new_DenseMatrix_def set_Elem_def put_Elem_def
        Width_def u rep)
  have r: "ExtendWithRBMs 0 ?rm ?R 1 4 [] = Inr ?out"
    by (simp add: ExtendWithRBMs_def rbm_mis_def rbm_node_def copy_row_def
        nth_chk_def slot_or_new_def new_DenseMatrix_def set_Elem_def put_Elem_def
        Width_def u rep signed_divide_int_def)
  have no: "\<not> owned 0 ?R 1" "\<not> owned 0 ?R 2" by (simp_all add: owned_def)
  note fr = extensions_frame [of 0 ?rm ?R 0 1 4 "[]" ?out ?out]
  from fr p r have
    a: "\<forall>mis<length ?rm. \<not> owned 0 ?R mis \<longrightarrow> ?out ! mis = ?rm ! mis"
    by blast
  have "?out ! 1 = ?rm ! 1" "?out ! 2 = ?rm ! 2"
    using a no by simp_all
  then show ?thesis using p r by simp
qed

end
